theory Spec2Isabelle
  imports Main
begin

section \<open>Data model of the ctxtodo analyzer\<close>

text \<open>
  The analyzer of \<^verbatim>\<open>internal/ctxtodo/ctxtodo.go\<close> works on the syntax tree and the
  type information of one Go package. Source positions (\<^verbatim>\<open>token.Pos\<close>) are natural
  numbers, \<open>0\<close> being \<^verbatim>\<open>token.NoPos\<close>.
\<close>

type_synonym pos = nat

subsection \<open>Types and objects of the type checker\<close>

text \<open>\<^verbatim>\<open>types.TypeName\<close>: the package path (absent for a nil package) and the name.\<close>

record typeName =
  tnPkg :: "string option"
  tnName :: string

text \<open>
  \<^verbatim>\<open>types.Type\<close>: a named type with its object and declared methods, a pointer, or any
  other type. A method has a name and a signature (parameter and result types).
\<close>

datatype ty =
    Named "typeName option" "tyMethod list"
  | Pointer ty
  | OtherType
and tyMethod =
    Method (mName: string) (mParams: "ty list") (mResults: "ty list")

text \<open>\<^verbatim>\<open>types.Var\<close>: a parameter or a variable of a scope.\<close>

record var =
  vName :: string
  vPos :: pos
  vType :: ty

text \<open>
  \<^verbatim>\<open>types.Func\<close> of a function declaration: identity of the object, name, name of
  its package, whether the signature has a receiver, the parameters, and whether the
  name is exported.
\<close>

record func =
  fnId :: nat
  fnName :: string
  fnPkgName :: string
  fnRecv :: bool
  fnParams :: "var list"
  fnExported :: bool

text \<open>
  \<^verbatim>\<open>types.Object\<close> as a call refers to it (\<^verbatim>\<open>TypesInfo.ObjectOf\<close>): identity, whether
  it is a \<^verbatim>\<open>*types.Func\<close>, the path of its package (absent for a nil package), its name.
\<close>

record object =
  objId :: nat
  objIsFunc :: bool
  objPkgPath :: "string option"
  objName :: string

subsection \<open>Diagnostics and edits\<close>

record textEdit =
  tePos :: pos
  teEnd :: pos
  teNewText :: string

record suggestedFix =
  sfMessage :: string
  sfTextEdits :: "textEdit list"

record diagnostic =
  dPos :: pos
  dEnd :: pos
  dCategory :: string
  dMessage :: string
  dFixes :: "suggestedFix list"

subsection \<open>Syntax tree\<close>

text \<open>
  A function declaration: identity of the \<^verbatim>\<open>*ast.FuncDecl\<close>, its object, its position,
  the name identifier (text and position), the opening parenthesis of the parameter
  list, the opening brace of the body, and the scope the type checker records for its
  function type (\<^verbatim>\<open>TypesInfo.Scopes[decl.Type]\<close>), listed in the order of
  \<^verbatim>\<open>Scope.Names()\<close>.
\<close>

record funcDecl =
  declId :: nat
  declObj :: func
  declPos :: pos
  declEnd :: pos
  declName :: string
  declNamePos :: pos
  declParamsOpening :: pos
  declBodyLbrace :: pos
  declScope :: "var list"

text \<open>
  A field of a parameter list: its names, the type recorded in \<^verbatim>\<open>TypesInfo.Types\<close>
  for its type expression (absent when the checker recorded none) and its range.
\<close>

record field =
  fldNames :: "string list"
  fldType :: "ty option"
  fldPos :: pos
  fldEnd :: pos

record funcLit =
  litPos :: pos
  litEnd :: pos
  litParams :: "field list"
  litScope :: "var list"

record callExpr =
  cPos :: pos
  cEnd :: pos
  cLparen :: pos
  cRparen :: pos

record assignStmt =
  asPos :: pos
  asEnd :: pos

record ident =
  idName :: string
  idPos :: pos
  idEnd :: pos
  idObj :: "object option"

text \<open>
  The nodes the analyzer tells apart. \<open>BlockStmt\<close> stands for the statements that
  carry a lexical scope of their own (blocks, \<^verbatim>\<open>if\<close>, \<^verbatim>\<open>for\<close>, \<^verbatim>\<open>switch\<close>, clauses),
  with the variables of that scope; \<open>OtherNode\<close> is any other node with its range and
  children.
\<close>

datatype node =
    File pos pos "node list"
  | FuncDecl funcDecl "node list"
  | FuncLit funcLit "node list"
  | BlockStmt pos pos "var list" "node list"
  | AssignStmt assignStmt "node list" "node list"
  | CallExpr callExpr node "node list"
  | Ident ident
  | SelectorExpr pos pos node ident
  | OtherNode pos pos "node list"

type_synonym astPath = "node list"

text \<open>
  \<^verbatim>\<open>localCall\<close>: the path to the call, the call, and the \<^verbatim>\<open>ctx :=\<close> assignment when
  there is one. \<^verbatim>\<open>walkAssignStmt\<close> stores the assignment together with its right-hand
  call, so \<^verbatim>\<open>assign.Rhs[0]\<close> is \<open>call\<close>.
\<close>

record localCall =
  path :: astPath
  call :: callExpr
  assign :: "assignStmt option"

section \<open>Recognising contexts\<close>

definition isContextContext :: "ty \<Rightarrow> bool" where
  "isContextContext otyp =
     (case otyp of
        Named (Some obj) ms \<Rightarrow>
          (case tnPkg obj of
             None \<Rightarrow> False
           | Some p \<Rightarrow> p = ''context'' \<and> tnName obj = ''Context'')
      | _ \<Rightarrow> False)"

text \<open>The loop of \<^verbatim>\<open>typeHasContextMethod\<close> over the methods of a named type.\<close>

fun contextMethodLoop :: "tyMethod list \<Rightarrow> bool" where
  "contextMethodLoop [] = False"
| "contextMethodLoop (meth # rest) =
     (if mName meth = ''Context'' then
        (case mResults meth of
           [res] \<Rightarrow> (if isContextContext res then True else contextMethodLoop rest)
         | _ \<Rightarrow> contextMethodLoop rest)
      else contextMethodLoop rest)"

fun typeHasContextMethod :: "ty \<Rightarrow> bool" where
  "typeHasContextMethod (Pointer e) = typeHasContextMethod e"
| "typeHasContextMethod (Named obj ms) = contextMethodLoop ms"
| "typeHasContextMethod OtherType = False"

section \<open>Reporting\<close>

definition hasPrefix :: "string \<Rightarrow> string \<Rightarrow> bool" where
  "hasPrefix s p = (take (length p) s = p)"

definition hasSuffix :: "string \<Rightarrow> string \<Rightarrow> bool" where
  "hasSuffix s p = (length p \<le> length s \<and> drop (length s - length p) s = p)"

text \<open>
  \<^verbatim>\<open>filterReports\<close> wraps the report function of the pass. \<open>fset\<close> gives the file name
  of a position (\<^verbatim>\<open>p.Fset.Position(pos).Filename\<close>), \<open>modcache\<close> is \<^verbatim>\<open>ModuleCache\<close>.
  \<open>filterDrops\<close> is the condition under which the wrapper returns without calling the
  wrapped function: some edit of some fix has a valid \<^verbatim>\<open>Pos\<close> or \<^verbatim>\<open>End\<close>, and the file
  of the position of the diagnostic starts with the module cache.
\<close>

definition filterDrops :: "(pos \<Rightarrow> string) \<Rightarrow> string \<Rightarrow> diagnostic \<Rightarrow> bool" where
  "filterDrops fset modcache diag =
     list_ex (\<lambda>sf.
       list_ex (\<lambda>te.
         list_ex (\<lambda>p. 0 < p \<and> hasPrefix (fset (dPos diag)) modcache)
           [tePos te, teEnd te])
         (sfTextEdits sf))
       (dFixes diag)"

text \<open>The wrapped report function; the reports that got through are a list.\<close>

definition filterReports ::
  "(pos \<Rightarrow> string) \<Rightarrow> string \<Rightarrow> diagnostic \<Rightarrow> diagnostic list \<Rightarrow> diagnostic list" where
  "filterReports fset modcache diag reported =
     (if filterDrops fset modcache diag then reported else reported @ [diag])"

section \<open>The context-source resolver\<close>

text \<open>\<^verbatim>\<open>fmt.Sprintf("%d", i)\<close> for a loop index.\<close>

fun decimal :: "nat \<Rightarrow> string" where
  "decimal n =
     (if n < 10 then [''0123456789'' ! n]
      else decimal (n div 10) @ [''0123456789'' ! (n mod 10)])"

declare decimal.simps [simp del]

text \<open>
  \<^verbatim>\<open>Reportf(pos, msg)\<close> and \<^verbatim>\<open>ReportRangef(rng, msg)\<close> build a diagnostic without
  fixes. The functions of the resolver return the diagnostics they report, in order,
  next to their result; the caller hands them to the report function of the pass.
\<close>

definition diagAt :: "pos \<Rightarrow> string \<Rightarrow> diagnostic" where
  "diagAt p msg =
     \<lparr>dPos = p, dEnd = 0, dCategory = [], dMessage = msg, dFixes = []\<rparr>"

definition diagRange :: "pos \<Rightarrow> pos \<Rightarrow> string \<Rightarrow> diagnostic" where
  "diagRange p e msg =
     \<lparr>dPos = p, dEnd = e, dCategory = [], dMessage = msg, dFixes = []\<rparr>"

definition nameThisParam :: string where
  "nameThisParam = ''Name this param if you want plumber to use it''"

text \<open>The loop of \<^verbatim>\<open>hasContextProviderParam\<close>, from index \<open>i\<close> on.\<close>

fun providerParamLoop :: "nat \<Rightarrow> var list \<Rightarrow> (string \<times> bool) \<times> diagnostic list" where
  "providerParamLoop i [] = (([], False), [])"
| "providerParamLoop i (param # rest) =
     (let unnamed = (vName param = []);
          paramName = (if unnamed then ''unnamedParam'' @ decimal i else vName param);
          ds = (if unnamed \<and> (isContextContext (vType param) \<or> typeHasContextMethod (vType param))
                then [diagAt (vPos param) nameThisParam] else [])
      in if isContextContext (vType param) then ((paramName, True), ds)
         else if typeHasContextMethod (vType param) then ((paramName @ ''.Context()'', True), ds)
         else (case providerParamLoop (Suc i) rest of (r, ds') \<Rightarrow> (r, ds @ ds')))"

definition hasContextProviderParam :: "func \<Rightarrow> (string \<times> bool) \<times> diagnostic list" where
  "hasContextProviderParam fn = providerParamLoop 0 (fnParams fn)"

text \<open>The loop of \<^verbatim>\<open>hasContextProviderField\<close>, from index \<open>i\<close> on.\<close>

fun providerFieldLoop :: "nat \<Rightarrow> field list \<Rightarrow> (string \<times> bool) \<times> diagnostic list" where
  "providerFieldLoop i [] = (([], False), [])"
| "providerFieldLoop i (fld # rest) =
     (case fldType fld of
        None \<Rightarrow> providerFieldLoop (Suc i) rest
      | Some t \<Rightarrow>
          (let fieldName = (case fldNames fld of
                              n # ns \<Rightarrow> n
                            | [] \<Rightarrow> ''unnamedParam'' @ decimal i);
               ds = (if fldNames fld = [] \<and> (isContextContext t \<or> typeHasContextMethod t)
                     then [diagRange (fldPos fld) (fldEnd fld) nameThisParam] else [])
           in if isContextContext t then ((fieldName, True), ds)
              else if typeHasContextMethod t then ((fieldName @ ''.Context()'', True), ds)
              else (case providerFieldLoop (Suc i) rest of (r, ds') \<Rightarrow> (r, ds @ ds'))))"

definition hasContextProviderField :: "field list \<Rightarrow> (string \<times> bool) \<times> diagnostic list" where
  "hasContextProviderField flds = providerFieldLoop 0 flds"

text \<open>\<^verbatim>\<open>hasContextProviderInScope\<close>: the objects of the scope in the order of its names.\<close>

fun hasContextProviderInScope :: "var list \<Rightarrow> pos \<Rightarrow> string \<times> bool" where
  "hasContextProviderInScope [] at = ([], False)"
| "hasContextProviderInScope (param # rest) at =
     (if at \<le> vPos param then hasContextProviderInScope rest at
      else if isContextContext (vType param) then (vName param, True)
      else if typeHasContextMethod (vType param) then (vName param @ ''.Context()'', True)
      else hasContextProviderInScope rest at)"

text \<open>
  \<^verbatim>\<open>hasContextProviderInPath\<close> pops the last node of the path and recurses on the
  rest; \<open>providerInPath\<close> is that recursion on the path listed innermost node first.
\<close>

fun providerInPath :: "node list \<Rightarrow> pos \<Rightarrow> (string \<times> bool) \<times> diagnostic list" where
  "providerInPath [] at = (([], False), [])"
| "providerInPath (AssignStmt a lhs rhs # prev) at = providerInPath prev (asPos a)"
| "providerInPath (FuncDecl d cs # prev) at =
     (case hasContextProviderParam (declObj d) of (r, ds) \<Rightarrow>
        if snd r then (r, ds)
        else (case hasContextProviderInScope (declScope d) at of r' \<Rightarrow>
          if snd r' then (r', ds)
          else (case providerInPath prev at of (r'', ds') \<Rightarrow> (r'', ds @ ds'))))"
| "providerInPath (FuncLit l cs # prev) at =
     (case hasContextProviderField (litParams l) of (r, ds) \<Rightarrow>
        if snd r then (r, ds)
        else (case hasContextProviderInScope (litScope l) at of r' \<Rightarrow>
          if snd r' then (r', ds)
          else (case providerInPath prev at of (r'', ds') \<Rightarrow> (r'', ds @ ds'))))"
| "providerInPath (n # prev) at = providerInPath prev at"

definition hasContextProviderInPath ::
  "astPath \<Rightarrow> pos \<Rightarrow> (string \<times> bool) \<times> diagnostic list" where
  "hasContextProviderInPath caller at = providerInPath (rev caller) at"

text \<open>\<^verbatim>\<open>astPath.decl\<close>: the last function declaration on the path.\<close>

fun declLoop :: "funcDecl option \<Rightarrow> node list \<Rightarrow> funcDecl option" where
  "declLoop found [] = found"
| "declLoop found (FuncDecl d cs # ns) = declLoop (Some d) ns"
| "declLoop found (n # ns) = declLoop found ns"

definition decl :: "astPath \<Rightarrow> funcDecl option" where
  "decl p = declLoop None p"

section \<open>The pass and its state\<close>

text \<open>
  What \<^verbatim>\<open>editToImportContext\<close> reads of a file: identity of the \<^verbatim>\<open>*ast.File\<close>, its
  position, the values of its import paths (with their quotes) and its top-level
  declarations: a \<^verbatim>\<open>GenDecl\<close> with its token, \<^verbatim>\<open>Lparen\<close> and position, or another
  declaration with its position.
\<close>

datatype topDecl =
    GenDecl string pos pos
  | OtherDecl pos

record astFile =
  fileId :: nat
  filePos :: pos
  fileImports :: "string list"
  fileDecls :: "topDecl list"

text \<open>
  The inputs of a pass: the file set (file name of a position), \<^verbatim>\<open>ModuleCache\<close>, the
  path of the package, its files, and the facts of other packages
  (\<^verbatim>\<open>ImportObjectFact(obj, new(NeedsContext))\<close> by object identity).
\<close>

record pass =
  fset :: "pos \<Rightarrow> string"
  moduleCache :: string
  pkgPath :: string
  files :: "astFile list"
  importedFact :: "nat \<Rightarrow> bool"

text \<open>
  The analysis state that \<^verbatim>\<open>buildCallGraph\<close> fills: \<open>byObj\<close>, \<open>callers\<close> (a Go
  map from the called object to the calls of it, here an association list), \<open>todos\<close>
  and \<open>transitives\<close>.
\<close>

record graph =
  byObj :: "(nat \<times> funcDecl) list"
  callers :: "(nat \<times> localCall list) list"
  todos :: "localCall list"
  transitives :: "localCall list"

definition callersOf :: "graph \<Rightarrow> nat \<Rightarrow> localCall list" where
  "callersOf g k = (case map_of (callers g) k of None \<Rightarrow> [] | Some cs \<Rightarrow> cs)"

text \<open>
  The diagnostic state: \<open>paramAdded\<close> (by declaration), \<open>contextImported\<close> (by
  file), the diagnostics that reached the report function of the driver, and the
  objects for which a \<^verbatim>\<open>NeedsContext\<close> fact was exported.
\<close>

record diagState =
  paramAdded :: "nat set"
  contextImported :: "nat set"
  reports :: "diagnostic list"
  facts :: "nat list"

definition report :: "pass \<Rightarrow> diagnostic \<Rightarrow> diagState \<Rightarrow> diagState" where
  "report p diag st =
     st\<lparr>reports := filterReports (fset p) (moduleCache p) diag (reports st)\<rparr>"

fun reportAll :: "pass \<Rightarrow> diagnostic list \<Rightarrow> diagState \<Rightarrow> diagState" where
  "reportAll p [] st = st"
| "reportAll p (d # ds) st = reportAll p ds (report p d st)"

section \<open>Edits\<close>

definition editToAddContextVarDecl :: "funcDecl \<Rightarrow> string \<Rightarrow> textEdit" where
  "editToAddContextVarDecl funcDecl c =
     \<lparr>tePos = declBodyLbrace funcDecl + 1, teEnd = declBodyLbrace funcDecl + 1,
      teNewText = ''ctx := '' @ c @ '';''\<rparr>"

definition editToPrependCtxParam :: "funcDecl \<Rightarrow> textEdit" where
  "editToPrependCtxParam funcDecl =
     \<lparr>tePos = declParamsOpening funcDecl + 1, teEnd = declParamsOpening funcDecl + 1,
      teNewText = ''ctx context.Context, ''\<rparr>"

definition editToPrependExpr :: "callExpr \<Rightarrow> string \<Rightarrow> textEdit" where
  "editToPrependExpr callExpr varname =
     \<lparr>tePos = cLparen callExpr + 1, teEnd = cLparen callExpr + 1,
      teNewText = varname @ '', ''\<rparr>"

definition quoted :: "string \<Rightarrow> string" where
  "quoted s = CHR 0x22 # s @ [CHR 0x22]"

text \<open>
  The loop of \<^verbatim>\<open>editToImportContext\<close> over the declarations: its \<^verbatim>\<open>break\<close> leaves the
  \<^verbatim>\<open>switch\<close>, not the loop, so the last parenthesised import declaration stays.
\<close>

fun importBlockLoop :: "pos option \<Rightarrow> topDecl list \<Rightarrow> pos option" where
  "importBlockLoop found [] = found"
| "importBlockLoop found (GenDecl tok lparen dp # rest) =
     importBlockLoop (if tok = ''import'' \<and> 0 < lparen then Some lparen else found) rest"
| "importBlockLoop found (OtherDecl dp # rest) = importBlockLoop found rest"

fun topDeclPos :: "topDecl \<Rightarrow> pos" where
  "topDeclPos (GenDecl tok lparen dp) = dp"
| "topDeclPos (OtherDecl dp) = dp"

definition editToImportContext :: "pass \<Rightarrow> pos \<Rightarrow> diagState \<Rightarrow> textEdit list \<times> diagState" where
  "editToImportContext p at st =
     (case find (\<lambda>f. fset p (filePos f) = fset p at) (files p) of
        None \<Rightarrow> ([], st)
      | Some f \<Rightarrow>
          if fileId f \<in> contextImported st then ([], st)
          else
            (let st' = st\<lparr>contextImported := insert (fileId f) (contextImported st)\<rparr>
             in if quoted ''context'' \<in> set (fileImports f) then ([], st')
                else
                  (case importBlockLoop None (fileDecls f) of
                     Some lparen \<Rightarrow>
                       ([\<lparr>tePos = lparen + 1, teEnd = lparen + 1,
                          teNewText = quoted ''context'' @ '';''\<rparr>], st')
                   | None \<Rightarrow>
                       (case fileDecls f of
                          first # ds \<Rightarrow>
                            ([\<lparr>tePos = topDeclPos first, teEnd = topDeclPos first,
                               teNewText = ''import '' @ quoted ''context'' @ '';''\<rparr>], st')
                        | [] \<Rightarrow> ([], st')))))"

section \<open>Entry points\<close>

definition isMainOrInit :: "func \<Rightarrow> bool" where
  "isMainOrInit fn =
     (if fnPkgName fn = ''main'' \<and> fnName fn = ''main'' then True
      else if fnName fn = ''init'' \<and> \<not> fnRecv fn then True
      else False)"

text \<open>The regular expression \<^verbatim>\<open>^(Test|Benchmark|Fuzz)[A-Z]\<close>.\<close>

definition upperLetters :: string where
  "upperLetters = ''ABCDEFGHIJKLMNOPQRSTUVWXYZ''"

definition prefixThenUpper :: "string \<Rightarrow> string \<Rightarrow> bool" where
  "prefixThenUpper pre s =
     (hasPrefix s pre \<and>
      (case drop (length pre) s of
         [] \<Rightarrow> False
       | c # cs \<Rightarrow> c \<in> set upperLetters))"

definition topLevelTestFunc :: "string \<Rightarrow> bool" where
  "topLevelTestFunc s =
     (prefixThenUpper ''Test'' s \<or> prefixThenUpper ''Benchmark'' s \<or> prefixThenUpper ''Fuzz'' s)"

definition isTopLevelTestFunc :: "pass \<Rightarrow> funcDecl \<Rightarrow> bool" where
  "isTopLevelTestFunc p funcDecl =
     (hasSuffix (fset p (declPos funcDecl)) ''_test.go'' \<and> topLevelTestFunc (declName funcDecl))"

section \<open>The propagation engine\<close>

text \<open>
  \<^verbatim>\<open>propagateContextThrough\<close> and \<^verbatim>\<open>propagateContextForCall\<close> call each other; the
  map \<open>seen\<close> they share and the state of the runner are passed along and returned.
  The first argument bounds the nesting depth of \<^verbatim>\<open>propagateContextThrough\<close>; the
  result is \<open>None\<close> when that bound is used up. \<open>propagateCallers\<close> is the loop over
  the callers at the end of \<^verbatim>\<open>propagateContextThrough\<close>. Log output is left out.
\<close>

fun propagateContextThrough ::
    "nat \<Rightarrow> pass \<Rightarrow> graph \<Rightarrow> funcDecl option \<Rightarrow> nat set \<Rightarrow> diagState
       \<Rightarrow> (textEdit list \<times> nat set \<times> diagState) option"
  and propagateContextForCall ::
    "nat \<Rightarrow> pass \<Rightarrow> graph \<Rightarrow> localCall \<Rightarrow> nat set \<Rightarrow> diagState
       \<Rightarrow> (textEdit list \<times> nat set \<times> diagState) option"
  and propagateCallers ::
    "nat \<Rightarrow> pass \<Rightarrow> graph \<Rightarrow> localCall list \<Rightarrow> nat set \<Rightarrow> diagState
       \<Rightarrow> (textEdit list \<times> nat set \<times> diagState) option"
where
  "propagateContextThrough 0 p g fd seen st = None"
| "propagateContextThrough (Suc n) p g None seen st = Some ([], seen, st)"
| "propagateContextThrough (Suc n) p g (Some funcDecl) seen st =
     (if fnId (declObj funcDecl) \<in> seen then Some ([], seen, st)
      else if declId funcDecl \<in> paramAdded st
        then Some ([], insert (fnId (declObj funcDecl)) seen, st)
      else
        (let fn = declObj funcDecl;
             seen1 = insert (fnId fn) seen;
             st1 = st\<lparr>paramAdded := insert (declId funcDecl) (paramAdded st)\<rparr>
         in case find (\<lambda>q. vName q = ''ctx'') (fnParams fn) of
              Some param \<Rightarrow>
                Some ([], seen1,
                  if isContextContext (vType param) then st1
                  else report p (diagRange (declPos funcDecl) (declEnd funcDecl)
                                   ''Non-context ctx parameter'') st1)
            | None \<Rightarrow>
                if isMainOrInit fn \<or> isTopLevelTestFunc p funcDecl then
                  (case editToImportContext p (declNamePos funcDecl) st1 of (imp, st2) \<Rightarrow>
                     Some (editToAddContextVarDecl funcDecl ''context.Background()'' # imp,
                           seen1, st2))
                else
                  (case hasContextProviderParam fn of (r, ds) \<Rightarrow>
                     if snd r then
                       (case editToImportContext p (declNamePos funcDecl) (reportAll p ds st1)
                        of (imp, st2) \<Rightarrow>
                          Some (editToAddContextVarDecl funcDecl (fst r) # imp, seen1, st2))
                     else
                       (let st2 = reportAll p ds st1;
                            st3 = (if fnExported fn
                                   then st2\<lparr>facts := facts st2 @ [fnId fn]\<rparr> else st2)
                        in case editToImportContext p (declNamePos funcDecl) st3 of
                             (imp, st4) \<Rightarrow>
                               (case propagateCallers n p g (callersOf g (fnId fn)) seen1 st4 of
                                  None \<Rightarrow> None
                                | Some (es, seen2, st5) \<Rightarrow>
                                    Some (editToPrependCtxParam funcDecl # imp @ es,
                                          seen2, st5))))))"
| "propagateContextForCall n p g caller seen st =
     (case hasContextProviderInPath (path caller) (cPos (call caller)) of (r, ds) \<Rightarrow>
        if snd r then
          Some ([editToPrependExpr (call caller) (fst r)], seen, reportAll p ds st)
        else
          (case propagateContextThrough n p g (decl (path caller)) seen (reportAll p ds st) of
             None \<Rightarrow> None
           | Some (es, seen1, st1) \<Rightarrow>
               Some (es @ [editToPrependExpr (call caller) ''ctx''], seen1, st1)))"
| "propagateCallers n p g [] seen st = Some ([], seen, st)"
| "propagateCallers n p g (caller # rest) seen st =
     (case propagateContextForCall n p g caller seen st of
        None \<Rightarrow> None
      | Some (es, seen1, st1) \<Rightarrow>
          (case propagateCallers n p g rest seen1 st1 of
             None \<Rightarrow> None
           | Some (es', seen2, st2) \<Rightarrow> Some (es @ es', seen2, st2)))"

declare propagateContextThrough.simps [simp del]
declare propagateContextForCall.simps [simp del]
declare propagateCallers.simps [simp del]

section \<open>Rewriting requests and continuation edges\<close>

definition plumbDiag :: "string \<Rightarrow> callExpr \<Rightarrow> textEdit list \<Rightarrow> diagnostic" where
  "plumbDiag msg c edits =
     \<lparr>dPos = cPos c, dEnd = cEnd c, dCategory = ''context'', dMessage = msg,
      dFixes = [\<lparr>sfMessage = ''Plumb context.Context'', sfTextEdits = edits\<rparr>]\<rparr>"

definition rewriteTODO :: "nat \<Rightarrow> pass \<Rightarrow> graph \<Rightarrow> localCall \<Rightarrow> diagState \<Rightarrow> diagState option" where
  "rewriteTODO n p g todo st =
     (case assign todo of
        Some a \<Rightarrow>
          (case propagateContextThrough n p g (decl (path todo)) {} st of
             None \<Rightarrow> None
           | Some (es, seen, st1) \<Rightarrow>
               Some (report p
                 (plumbDiag ''Plumb context'' (call todo)
                    (es @ [\<lparr>tePos = asPos a, teEnd = cRparen (call todo) + 1, teNewText = []\<rparr>]))
                 st1))
      | None \<Rightarrow>
          (case hasContextProviderInPath (path todo) (cPos (call todo)) of (r, ds) \<Rightarrow>
             if snd r then
               Some (report p
                 (plumbDiag ''Plumb context'' (call todo)
                    [\<lparr>tePos = cPos (call todo), teEnd = cEnd (call todo), teNewText = fst r\<rparr>])
                 (reportAll p ds st))
             else
               (case propagateContextThrough n p g (decl (path todo)) {} (reportAll p ds st) of
                  None \<Rightarrow> None
                | Some (es, seen, st1) \<Rightarrow>
                    Some (report p
                      (plumbDiag ''Plumb context'' (call todo)
                         (es @ [\<lparr>tePos = cPos (call todo), teEnd = cEnd (call todo),
                                 teNewText = ''ctx''\<rparr>]))
                      st1))))"

definition rewriteTransitives ::
  "nat \<Rightarrow> pass \<Rightarrow> graph \<Rightarrow> localCall \<Rightarrow> diagState \<Rightarrow> diagState option" where
  "rewriteTransitives n p g todo st =
     (case propagateContextForCall n p g todo {} st of
        None \<Rightarrow> None
      | Some (es, seen, st1) \<Rightarrow>
          Some (report p (plumbDiag ''Continue plumbing context'' (call todo) es) st1))"

fun todosLoop :: "nat \<Rightarrow> pass \<Rightarrow> graph \<Rightarrow> localCall list \<Rightarrow> diagState \<Rightarrow> diagState option" where
  "todosLoop n p g [] st = Some st"
| "todosLoop n p g (c # cs) st =
     (case rewriteTODO n p g c st of None \<Rightarrow> None | Some st1 \<Rightarrow> todosLoop n p g cs st1)"

fun transitivesLoop ::
  "nat \<Rightarrow> pass \<Rightarrow> graph \<Rightarrow> localCall list \<Rightarrow> diagState \<Rightarrow> diagState option" where
  "transitivesLoop n p g [] st = Some st"
| "transitivesLoop n p g (c # cs) st =
     (case rewriteTransitives n p g c st of
        None \<Rightarrow> None
      | Some st1 \<Rightarrow> transitivesLoop n p g cs st1)"

definition buildDiagnostics :: "nat \<Rightarrow> pass \<Rightarrow> graph \<Rightarrow> diagState \<Rightarrow> diagState option" where
  "buildDiagnostics n p g st =
     (case todosLoop n p g (todos g) st of
        None \<Rightarrow> None
      | Some st1 \<Rightarrow> transitivesLoop n p g (transitives g) st1)"

section \<open>Building the call graph\<close>

definition isContextTODO :: "object option \<Rightarrow> bool" where
  "isContextTODO obj =
     (case obj of
        None \<Rightarrow> False
      | Some f \<Rightarrow>
          (if objIsFunc f then
             (case objPkgPath f of
                None \<Rightarrow> False
              | Some pth \<Rightarrow> pth = ''context'' \<and> objName f = ''TODO'')
           else False))"

definition isLocal :: "pass \<Rightarrow> string option \<Rightarrow> bool" where
  "isLocal p pkg = (case pkg of None \<Rightarrow> False | Some pth \<Rightarrow> pkgPath p = pth)"

text \<open>The type assertions of the walk.\<close>

fun asIdent :: "node \<Rightarrow> ident option" where
  "asIdent (Ident i) = Some i"
| "asIdent n = None"

fun asCallExpr :: "node \<Rightarrow> (callExpr \<times> node) option" where
  "asCallExpr (CallExpr c f args) = Some (c, f)"
| "asCallExpr n = None"

fun asSelectorSel :: "node \<Rightarrow> ident option" where
  "asSelectorSel (SelectorExpr sp se x sel) = Some sel"
| "asSelectorSel n = None"

definition addMapping :: "nat \<Rightarrow> 'a \<Rightarrow> (nat \<times> 'a) list \<Rightarrow> (nat \<times> 'a) list" where
  "addMapping k v al =
     (if k \<in> set (map fst al) then map (\<lambda>(k', v'). if k' = k then (k', v) else (k', v')) al
      else al @ [(k, v)])"

definition walkFuncDecl :: "funcDecl \<Rightarrow> graph \<Rightarrow> bool \<times> graph" where
  "walkFuncDecl d g = (True, g\<lparr>byObj := addMapping (fnId (declObj d)) d (byObj g)\<rparr>)"

definition walkAssignStmt ::
  "astPath \<Rightarrow> assignStmt \<Rightarrow> node list \<Rightarrow> node list \<Rightarrow> graph \<Rightarrow> bool \<times> graph" where
  "walkAssignStmt stack a lhs rhs g =
     (if length lhs = 1 \<and> length rhs = 1 then
        (case asIdent (hd lhs) of
           None \<Rightarrow> (True, g)
         | Some i \<Rightarrow>
             if idName i = ''ctx'' \<or> idName i = ''_'' then
               (case asCallExpr (hd rhs) of
                  None \<Rightarrow> (True, g)
                | Some (c, f) \<Rightarrow>
                    (case asSelectorSel f of
                       None \<Rightarrow> (True, g)
                     | Some sel \<Rightarrow>
                         if isContextTODO (idObj sel) then
                           (False,
                            g\<lparr>todos := todos g @ [\<lparr>path = stack, call = c, assign = Some a\<rparr>]\<rparr>)
                         else (True, g)))
             else (True, g))
      else (True, g))"

definition walkCallExpr :: "pass \<Rightarrow> astPath \<Rightarrow> callExpr \<Rightarrow> node \<Rightarrow> graph \<Rightarrow> bool \<times> graph" where
  "walkCallExpr p stack c f g =
     (case (case asIdent f of Some i \<Rightarrow> Some i | None \<Rightarrow> asSelectorSel f) of
        None \<Rightarrow> (True, g)
      | Some i \<Rightarrow>
          (case idObj i of
             None \<Rightarrow> (True, g)
           | Some called \<Rightarrow>
               if isContextTODO (Some called) then
                 (False, g\<lparr>todos := todos g @ [\<lparr>path = stack, call = c, assign = None\<rparr>]\<rparr>)
               else
                 (let lc = \<lparr>path = stack, call = c, assign = None\<rparr>;
                      g1 = (if isLocal p (objPkgPath called)
                            then g\<lparr>callers := addMapping (objId called)
                                     (callersOf g (objId called) @ [lc]) (callers g)\<rparr>
                            else g);
                      g2 = (if importedFact p (objId called)
                            then g1\<lparr>transitives := transitives g1 @ [lc]\<rparr>
                            else g1)
                  in (True, g2))))"

text \<open>
  The traversal of \<^verbatim>\<open>inspector.WithStack\<close>: every node is visited before its children,
  with the stack of its ancestors and itself; the children are visited in source order
  (for an assignment the left-hand sides, then the right-hand sides; for a call the
  function, then the arguments), and only when the visit returns true. Nothing happens
  on the way back.
\<close>

fun walk :: "pass \<Rightarrow> astPath \<Rightarrow> node \<Rightarrow> graph \<Rightarrow> graph"
  and walkNodes :: "pass \<Rightarrow> astPath \<Rightarrow> node list \<Rightarrow> graph \<Rightarrow> graph"
where
  "walk p stack (File fp fe ds) g = walkNodes p (stack @ [File fp fe ds]) ds g"
| "walk p stack (FuncDecl d cs) g =
     (case walkFuncDecl d g of (proceed, g1) \<Rightarrow>
        if proceed then walkNodes p (stack @ [FuncDecl d cs]) cs g1 else g1)"
| "walk p stack (FuncLit l cs) g = walkNodes p (stack @ [FuncLit l cs]) cs g"
| "walk p stack (BlockStmt bp be sc cs) g = walkNodes p (stack @ [BlockStmt bp be sc cs]) cs g"
| "walk p stack (AssignStmt a lhs rhs) g =
     (case walkAssignStmt (stack @ [AssignStmt a lhs rhs]) a lhs rhs g of (proceed, g1) \<Rightarrow>
        if proceed then walkNodes p (stack @ [AssignStmt a lhs rhs]) (lhs @ rhs) g1 else g1)"
| "walk p stack (CallExpr c f args) g =
     (case walkCallExpr p (stack @ [CallExpr c f args]) c f g of (proceed, g1) \<Rightarrow>
        if proceed then
          walkNodes p (stack @ [CallExpr c f args]) args
            (walk p (stack @ [CallExpr c f args]) f g1)
        else g1)"
| "walk p stack (Ident i) g = g"
| "walk p stack (SelectorExpr sp se x sel) g =
     walk p (stack @ [SelectorExpr sp se x sel]) (Ident sel)
       (walk p (stack @ [SelectorExpr sp se x sel]) x g)"
| "walk p stack (OtherNode op oe cs) g = walkNodes p (stack @ [OtherNode op oe cs]) cs g"
| "walkNodes p stack [] g = g"
| "walkNodes p stack (n # ns) g = walkNodes p stack ns (walk p stack n g)"

definition emptyGraph :: graph where
  "emptyGraph = \<lparr>byObj = [], callers = [], todos = [], transitives = []\<rparr>"

definition buildCallGraph :: "pass \<Rightarrow> node list \<Rightarrow> graph" where
  "buildCallGraph p roots = walkNodes p [] roots emptyGraph"

definition initialState :: diagState where
  "initialState = \<lparr>paramAdded = {}, contextImported = {}, reports = [], facts = []\<rparr>"

text \<open>
  \<^verbatim>\<open>run\<close> on the files of the package (the error on an empty \<^verbatim>\<open>ModuleCache\<close> is the
  result \<open>Inl\<close>); the result holds the reported diagnostics.
\<close>

definition run :: "nat \<Rightarrow> pass \<Rightarrow> node list \<Rightarrow> string + diagState option" where
  "run n p roots =
     (if moduleCache p = [] then Inl ''failed to determine GOMODCACHE, specify --modcache flag''
      else Inr (buildDiagnostics n p (buildCallGraph p roots) initialState))"

section \<open>Reference definitions\<close>

text \<open>
  The candidates of the resolver, as pairs of the name to use and the type: the
  parameters of a declared function from index \<open>i\<close> on (an unnamed one under its
  synthetic name), the fields of a function literal that have a recorded type (under
  the first name, or the synthetic one), and the objects of a scope declared strictly
  before a position.
\<close>

fun paramCandidates :: "nat \<Rightarrow> var list \<Rightarrow> (string \<times> ty) list" where
  "paramCandidates i [] = []"
| "paramCandidates i (q # qs) =
     ((if vName q = [] then ''unnamedParam'' @ decimal i else vName q), vType q)
       # paramCandidates (Suc i) qs"

fun fieldCandidates :: "nat \<Rightarrow> field list \<Rightarrow> (string \<times> ty) list" where
  "fieldCandidates i [] = []"
| "fieldCandidates i (f # fs) =
     (case fldType f of
        None \<Rightarrow> fieldCandidates (Suc i) fs
      | Some t \<Rightarrow>
          ((case fldNames f of n # ns \<Rightarrow> n | [] \<Rightarrow> ''unnamedParam'' @ decimal i), t)
            # fieldCandidates (Suc i) fs)"

definition scopeCandidates :: "var list \<Rightarrow> pos \<Rightarrow> (string \<times> ty) list" where
  "scopeCandidates sc at = map (\<lambda>v. (vName v, vType v)) (filter (\<lambda>v. vPos v < at) sc)"

text \<open>First match wins: the first candidate whose type qualifies, and its expression.\<close>

definition firstProvider :: "(string \<times> ty) list \<Rightarrow> string \<times> bool" where
  "firstProvider cands =
     (case find (\<lambda>c. isContextContext (snd c) \<or> typeHasContextMethod (snd c)) cands of
        None \<Rightarrow> ([], False)
      | Some c \<Rightarrow> (if isContextContext (snd c) then fst c else fst c @ ''.Context()'', True))"

text \<open>
  The order in which the code searches, for a path listed innermost node first: at
  every enclosing function literal and function declaration its parameters, then the
  objects of its function scope declared before the current position; leaving an
  assignment moves the current position to the start of the assignment; every other
  node is passed over.
\<close>

fun searchOrder :: "node list \<Rightarrow> pos \<Rightarrow> (string \<times> ty) list" where
  "searchOrder [] at = []"
| "searchOrder (AssignStmt a lhs rhs # prev) at = searchOrder prev (asPos a)"
| "searchOrder (FuncDecl d cs # prev) at =
     paramCandidates 0 (fnParams (declObj d)) @ scopeCandidates (declScope d) at
       @ searchOrder prev at"
| "searchOrder (FuncLit l cs # prev) at =
     fieldCandidates 0 (litParams l) @ scopeCandidates (litScope l) at @ searchOrder prev at"
| "searchOrder (n # prev) at = searchOrder prev at"

text \<open>
  The resolver as the specification words it (section 4.1): first the named formal
  parameters of the innermost enclosing procedure or closure, in declaration order;
  then the variables of each enclosing lexical scope, innermost to outermost, that are
  declared strictly before the query position.
\<close>

definition specParams :: "var list \<Rightarrow> (string \<times> ty) list" where
  "specParams ps = map (\<lambda>q. (vName q, vType q)) (filter (\<lambda>q. \<not> vName q = []) ps)"

definition specFields :: "field list \<Rightarrow> (string \<times> ty) list" where
  "specFields fs =
     concat (map (\<lambda>f. case fldType f of None \<Rightarrow> [] | Some t \<Rightarrow> map (\<lambda>n. (n, t)) (fldNames f)) fs)"

fun specInnermostParams :: "node list \<Rightarrow> (string \<times> ty) list" where
  "specInnermostParams [] = []"
| "specInnermostParams (FuncDecl d cs # prev) = specParams (fnParams (declObj d))"
| "specInnermostParams (FuncLit l cs # prev) = specFields (litParams l)"
| "specInnermostParams (n # prev) = specInnermostParams prev"

fun specEnclosingScopes :: "node list \<Rightarrow> var list list" where
  "specEnclosingScopes [] = []"
| "specEnclosingScopes (FuncDecl d cs # prev) = declScope d # specEnclosingScopes prev"
| "specEnclosingScopes (FuncLit l cs # prev) = litScope l # specEnclosingScopes prev"
| "specEnclosingScopes (BlockStmt bp be sc cs # prev) = sc # specEnclosingScopes prev"
| "specEnclosingScopes (n # prev) = specEnclosingScopes prev"

definition specResolver :: "astPath \<Rightarrow> pos \<Rightarrow> string \<times> bool" where
  "specResolver caller P =
     firstProvider
       (specInnermostParams (rev caller)
          @ concat (map (\<lambda>sc. scopeCandidates sc P) (specEnclosingScopes (rev caller))))"

text \<open>
  Qualification as the specification words it: the type is the context abstraction, or
  it exposes a zero-argument accessor method named \<^verbatim>\<open>Context\<close> that returns it.
\<close>

fun specHasAccessor :: "ty \<Rightarrow> bool" where
  "specHasAccessor (Pointer e) = specHasAccessor e"
| "specHasAccessor (Named obj ms) =
     list_ex (\<lambda>m. mName m = ''Context'' \<and> mParams m = [] \<and>
                   (case mResults m of [r] \<Rightarrow> isContextContext r | _ \<Rightarrow> False)) ms"
| "specHasAccessor OtherType = False"

definition specQualifies :: "ty \<Rightarrow> bool" where
  "specQualifies t = (isContextContext t \<or> specHasAccessor t)"

text \<open>The nodes at which the resolver looks for parameters.\<close>

fun isFunctionNode :: "node \<Rightarrow> bool" where
  "isFunctionNode (FuncDecl d cs) = True"
| "isFunctionNode (FuncLit l cs) = True"
| "isFunctionNode n = False"

text \<open>
  The edit \<^verbatim>\<open>rewriteTODO\<close> makes at the request itself once it has run
  \<^verbatim>\<open>propagateContextThrough\<close>: the assignment is deleted, a bare call is replaced.
  \<open>requestDiags\<close> are the diagnostics the resolver reported on the way there.
\<close>

definition requestEdit :: "localCall \<Rightarrow> string \<Rightarrow> textEdit" where
  "requestEdit todo expr =
     (case assign todo of
        Some a \<Rightarrow> \<lparr>tePos = asPos a, teEnd = cRparen (call todo) + 1, teNewText = []\<rparr>
      | None \<Rightarrow> \<lparr>tePos = cPos (call todo), teEnd = cEnd (call todo), teNewText = expr\<rparr>)"

definition requestDiags :: "localCall \<Rightarrow> diagnostic list" where
  "requestDiags todo =
     (case assign todo of
        Some a \<Rightarrow> []
      | None \<Rightarrow> snd (hasContextProviderInPath (path todo) (cPos (call todo))))"

text \<open>
  The branch of \<^verbatim>\<open>propagateContextThrough\<close> that adds the parameter is taken when the
  function is new to \<open>seen\<close> and to \<open>paramAdded\<close>, has no parameter named \<^verbatim>\<open>ctx\<close>,
  is no entry point and has no providing parameter. \<open>injectState\<close> gives the import
  edits and the state with which the loop over the callers then starts.
\<close>

definition injects :: "pass \<Rightarrow> funcDecl \<Rightarrow> nat set \<Rightarrow> diagState \<Rightarrow> bool" where
  "injects p d seen st =
     (fnId (declObj d) \<notin> seen \<and> declId d \<notin> paramAdded st \<and>
      find (\<lambda>q. vName q = ''ctx'') (fnParams (declObj d)) = None \<and>
      \<not> (isMainOrInit (declObj d) \<or> isTopLevelTestFunc p d) \<and>
      \<not> snd (fst (hasContextProviderParam (declObj d))))"

definition injectState :: "pass \<Rightarrow> funcDecl \<Rightarrow> diagState \<Rightarrow> textEdit list \<times> diagState" where
  "injectState p d st =
     (let st2 = reportAll p (snd (hasContextProviderParam (declObj d)))
                  (st\<lparr>paramAdded := insert (declId d) (paramAdded st)\<rparr>);
          st3 = (if fnExported (declObj d) then st2\<lparr>facts := facts st2 @ [fnId (declObj d)]\<rparr>
                 else st2)
      in editToImportContext p (declNamePos d) st3)"

text \<open>
  The calls and the declarations a graph holds; the objects of the declarations that
  enclose a recorded caller; and a bound on the nesting depth of
  \<^verbatim>\<open>propagateContextThrough\<close> for the graph.
\<close>

definition graphCalls :: "graph \<Rightarrow> localCall list" where
  "graphCalls g = todos g @ transitives g @ concat (map snd (callers g))"

definition declsOf :: "localCall list \<Rightarrow> funcDecl list" where
  "declsOf cs = concat (map (\<lambda>c. case decl (path c) of None \<Rightarrow> [] | Some d \<Rightarrow> [d]) cs)"

definition graphDecls :: "graph \<Rightarrow> funcDecl list" where
  "graphDecls g = declsOf (graphCalls g)"

definition callerIds :: "graph \<Rightarrow> nat list" where
  "callerIds g = map (\<lambda>d. fnId (declObj d)) (declsOf (concat (map snd (callers g))))"

definition walkBound :: "graph \<Rightarrow> nat" where
  "walkBound g = length (callerIds g) + 2"

text \<open>All edits of the fixes of a list of diagnostics, in order.\<close>

definition allEdits :: "diagnostic list \<Rightarrow> textEdit list" where
  "allEdits ds = concat (map (\<lambda>d. concat (map sfTextEdits (dFixes d))) ds)"

text \<open>
  Positions as a front end gives them: different declarations have their parameter
  lists at different places, the parenthesis of a call is not the parenthesis of a
  parameter list, and a call is not empty.
\<close>

definition wfPositions :: "graph \<Rightarrow> bool" where
  "wfPositions g =
     (list_all (\<lambda>d. list_all (\<lambda>d'. if declParamsOpening d = declParamsOpening d'
                                     then declId d = declId d' else True) (graphDecls g))
        (graphDecls g) \<and>
      list_all (\<lambda>c. cPos (call c) < cEnd (call c) \<and>
                    list_all (\<lambda>d. \<not> cLparen (call c) = declParamsOpening d) (graphDecls g))
        (graphCalls g))"

text \<open>
  Three relations between the state before and after a call of the engine, used to
  state what every call preserves. \<open>engineKeeps\<close>: \<open>paramAdded\<close> only grows, the
  reports grow by diagnostics without fixes, and every returned edit is an insertion.
  \<open>injectedOnce\<close>: the returned edits hold the parameter insertion of a declaration at
  most once, and only when the call added the declaration to \<open>paramAdded\<close>.
  \<open>onceInv\<close>: the reported edits hold the parameter insertion of a declaration at most
  once, and only when the declaration is in \<open>paramAdded\<close>.
\<close>

definition engineKeeps ::
  "nat set \<Rightarrow> diagState \<Rightarrow> textEdit list \<Rightarrow> nat set \<Rightarrow> diagState \<Rightarrow> bool" where
  "engineKeeps seen st es seen' st' =
     (paramAdded st \<subseteq> paramAdded st' \<and>
      (\<exists>ds. list_all (\<lambda>x. dFixes x = []) ds \<and> reports st' = reports st @ ds) \<and>
      list_all (\<lambda>e. tePos e = teEnd e) es)"

definition injectedOnce :: "funcDecl \<Rightarrow> diagState \<Rightarrow> textEdit list \<Rightarrow> diagState \<Rightarrow> bool" where
  "injectedOnce d st es st' =
     (paramAdded st \<subseteq> paramAdded st' \<and>
      count_list es (editToPrependCtxParam d)
        \<le> (if declId d \<in> paramAdded st' \<and> declId d \<notin> paramAdded st then 1 else 0))"

definition onceInv :: "funcDecl \<Rightarrow> diagState \<Rightarrow> bool" where
  "onceInv d st =
     (count_list (allEdits (reports st)) (editToPrependCtxParam d)
        \<le> (if declId d \<in> paramAdded st then 1 else 0))"


text \<open>
  Source ranges. The range of a node as the parser gives it; a syntax tree is well
  formed when every node starts before it ends and its children lie inside it, one
  after the other in source order. For a call, the function lies before the opening
  parenthesis, the arguments lie between the parentheses, and the end of the call is
  one past the closing parenthesis. The files of a pass occupy ranges of the file set
  that do not overlap, in any order.
\<close>

fun span :: "node \<Rightarrow> pos \<times> pos" where
  "span (File fp fe ds) = (fp, fe)"
| "span (FuncDecl d cs) = (declPos d, declEnd d)"
| "span (FuncLit l cs) = (litPos l, litEnd l)"
| "span (BlockStmt bp be sc cs) = (bp, be)"
| "span (AssignStmt a lhs rhs) = (asPos a, asEnd a)"
| "span (CallExpr c f args) = (cPos c, cEnd c)"
| "span (Ident i) = (idPos i, idEnd i)"
| "span (SelectorExpr sp se x sel) = (sp, se)"
| "span (OtherNode op oe cs) = (op, oe)"

fun orderedFrom :: "pos \<Rightarrow> node list \<Rightarrow> bool" where
  "orderedFrom lo [] = True"
| "orderedFrom lo (n # ns) = (lo \<le> fst (span n) \<and> orderedFrom (snd (span n)) ns)"

definition spansWithin :: "pos \<Rightarrow> pos \<Rightarrow> node list \<Rightarrow> bool" where
  "spansWithin lo hi ns = (orderedFrom lo ns \<and> list_all (\<lambda>n. snd (span n) \<le> hi) ns)"

fun wfNode :: "node \<Rightarrow> bool" where
  "wfNode (File fp fe ds) = (fp \<le> fe \<and> spansWithin fp fe ds \<and> list_all wfNode ds)"
| "wfNode (FuncDecl d cs) =
     (declPos d \<le> declEnd d \<and> spansWithin (declPos d) (declEnd d) cs \<and> list_all wfNode cs)"
| "wfNode (FuncLit l cs) =
     (litPos l \<le> litEnd l \<and> spansWithin (litPos l) (litEnd l) cs \<and> list_all wfNode cs)"
| "wfNode (BlockStmt bp be sc cs) = (bp \<le> be \<and> spansWithin bp be cs \<and> list_all wfNode cs)"
| "wfNode (AssignStmt a lhs rhs) =
     (asPos a \<le> asEnd a \<and> spansWithin (asPos a) (asEnd a) (lhs @ rhs) \<and>
      list_all wfNode (lhs @ rhs))"
| "wfNode (CallExpr c f args) =
     (cPos c \<le> cLparen c \<and> cLparen c < cRparen c \<and> cRparen c + 1 = cEnd c \<and>
      spansWithin (cPos c) (cLparen c) [f] \<and>
      spansWithin (cLparen c + 1) (cRparen c) args \<and> list_all wfNode (f # args))"
| "wfNode (Ident i) = (idPos i \<le> idEnd i)"
| "wfNode (SelectorExpr sp se x sel) =
     (sp \<le> se \<and> spansWithin sp se [x, Ident sel] \<and> list_all wfNode [x, Ident sel])"
| "wfNode (OtherNode op oe cs) = (op \<le> oe \<and> spansWithin op oe cs \<and> list_all wfNode cs)"

text \<open>
  The range of an edit and the range that the fix of a request replaces or deletes.
  Two ranges overlap when each starts before the other ends: two half-open ranges
  that share a position, or an insertion point strictly inside a range. Two
  insertions at the same point overlap as well, since the result depends on their
  order.
\<close>

definition editRange :: "textEdit \<Rightarrow> pos \<times> pos" where
  "editRange e = (tePos e, teEnd e)"

definition requestRange :: "localCall \<Rightarrow> pos \<times> pos" where
  "requestRange t =
     (case assign t of
        Some a \<Rightarrow> (asPos a, cRparen (call t) + 1)
      | None \<Rightarrow> (cPos (call t), cEnd (call t)))"

definition overlap :: "pos \<times> pos \<Rightarrow> pos \<times> pos \<Rightarrow> bool" where
  "overlap r s = ((fst r < snd s \<and> fst s < snd r) \<or> (fst r = snd r \<and> r = s))"

fun pairwiseDisjoint :: "(pos \<times> pos) list \<Rightarrow> bool" where
  "pairwiseDisjoint [] = True"
| "pairwiseDisjoint (r # rs) = (list_all (\<lambda>s. \<not> overlap r s) rs \<and> pairwiseDisjoint rs)"

definition wfAst :: "node list \<Rightarrow> bool" where
  "wfAst roots = (list_all wfNode roots \<and> pairwiseDisjoint (map span roots))"

text \<open>
  The points at which the engine inserts: one past the opening parenthesis of a
  recorded call, one past the opening parenthesis of the parameters and one past the
  opening brace of the body of a declaration, and for a file one past the parenthesis
  of its (last) import block or else the start of its first declaration.
\<close>

definition callPoint :: "localCall \<Rightarrow> pos" where
  "callPoint c = cLparen (call c) + 1"

definition declPoints :: "funcDecl \<Rightarrow> pos list" where
  "declPoints d = [declParamsOpening d + 1, declBodyLbrace d + 1]"

definition importPoint :: "astFile \<Rightarrow> pos option" where
  "importPoint f =
     (case importBlockLoop None (fileDecls f) of
        Some lparen \<Rightarrow> Some (lparen + 1)
      | None \<Rightarrow> (case fileDecls f of first # ds \<Rightarrow> Some (topDeclPos first) | [] \<Rightarrow> None))"

definition declPts :: "graph \<Rightarrow> pos list" where
  "declPts g = concat (map declPoints (remdups (graphDecls g)))"

definition importPoints :: "pass \<Rightarrow> pos list" where
  "importPoints p =
     concat (map (\<lambda>f. case importPoint f of None \<Rightarrow> [] | Some x \<Rightarrow> [x]) (remdups (files p)))"

definition inside :: "pos \<Rightarrow> pos \<times> pos \<Rightarrow> bool" where
  "inside x r = (fst r < x \<and> x < snd r)"

text \<open>
  Tokens as a parser and a type checker give them. The insertion points of different
  declarations and of the files are different positions, none of them is the
  insertion point of a recorded call, and none lies strictly inside a request. A call
  of a function of the package is not a call of a function with an imported fact
  (facts come from other packages). Different declarations declare different function
  objects.
\<close>

definition wfTokens :: "pass \<Rightarrow> graph \<Rightarrow> bool" where
  "wfTokens p g =
     (distinct (declPts g @ importPoints p) \<and>
      list_all (\<lambda>x. list_all (\<lambda>c. \<not> callPoint c = x)
                      (transitives g @ concat (map snd (callers g))) \<and>
                    list_all (\<lambda>t. \<not> inside x (requestRange t)) (todos g))
        (declPts g @ importPoints p) \<and>
      list_all (\<lambda>c. list_all (\<lambda>c'. \<not> callPoint c' = callPoint c)
                      (concat (map snd (callers g))))
        (transitives g) \<and>
      list_all (\<lambda>d. list_all (\<lambda>d'. if fnId (declObj d) = fnId (declObj d') then d = d' else True)
                      (graphDecls g))
        (graphDecls g))"

text \<open>Ranges that follow one another from a position on, none of them empty.\<close>

fun orderedRanges :: "pos \<Rightarrow> (pos \<times> pos) list \<Rightarrow> bool" where
  "orderedRanges lo [] = True"
| "orderedRanges lo (r # rs) = (lo \<le> fst r \<and> fst r < snd r \<and> orderedRanges (snd r) rs)"

text \<open>
  \<open>adds lo hi g g'\<close>: what a walk between the positions \<open>lo\<close> and \<open>hi\<close> may add to a
  graph. The requests of \<open>g'\<close> are those of \<open>g\<close> and, after them, requests whose ranges
  follow one another between \<open>lo\<close> and \<open>hi\<close>; the transitive calls and the callers of
  every object are those of \<open>g\<close> followed by new ones (\<open>vs\<close> lists the new callers with
  the objects they call); the insertion points of the new calls are different
  positions after \<open>lo\<close> and up to \<open>hi\<close>, none of them strictly inside a new request.
\<close>

definition adds :: "pos \<Rightarrow> pos \<Rightarrow> graph \<Rightarrow> graph \<Rightarrow> bool" where
  "adds lo hi g g' =
     (\<exists>ts us vs.
        todos g' = todos g @ ts \<and> transitives g' = transitives g @ us \<and>
        (\<forall>k. callersOf g' k = callersOf g k @ map snd (filter (\<lambda>e. fst e = k) vs)) \<and>
        orderedRanges lo (map requestRange ts) \<and>
        list_all (\<lambda>r. snd r \<le> hi) (map requestRange ts) \<and>
        distinct (map callPoint us) \<and> distinct (map (\<lambda>e. callPoint (snd e)) vs) \<and>
        (\<forall>c \<in> set us \<union> snd ` set vs.
           lo < callPoint c \<and> callPoint c \<le> hi \<and>
           (\<forall>t \<in> set ts. \<not> inside (callPoint c) (requestRange t))))"

text \<open>
  \<open>recorded S g\<close>: what the walk of files with the ranges \<open>S\<close> leaves in a graph.
  The ranges of the requests are not empty, do not overlap, and lie in a file; the
  insertion points of the transitive calls are different positions, so are those of
  all callers, each lies in a file and none strictly inside a request.
\<close>

definition recorded :: "(pos \<times> pos) list \<Rightarrow> graph \<Rightarrow> bool" where
  "recorded S g =
     (\<exists>vs.
        (\<forall>k. callersOf g k = map snd (filter (\<lambda>e. fst e = k) vs)) \<and>
        pairwiseDisjoint (map requestRange (todos g)) \<and>
        (\<forall>t \<in> set (todos g).
           fst (requestRange t) < snd (requestRange t) \<and>
           (\<exists>s \<in> set S. fst s \<le> fst (requestRange t) \<and> snd (requestRange t) \<le> snd s)) \<and>
        distinct (map callPoint (transitives g)) \<and>
        distinct (map (\<lambda>e. callPoint (snd e)) vs) \<and>
        (\<forall>c \<in> set (transitives g) \<union> snd ` set vs.
           (\<exists>s \<in> set S. fst s < callPoint c \<and> callPoint c \<le> snd s) \<and>
           (\<forall>t \<in> set (todos g). \<not> inside (callPoint c) (requestRange t))))"

text \<open>
  Counting the insertions at a point \<open>x\<close>. A declaration owns its two insertion
  points and those of the callers of its function; a file owns its import point.
  \<open>budget\<close> counts the owners of \<open>x\<close> that a call of the engine has added to
  \<open>paramAdded\<close> and to \<open>contextImported\<close>; \<open>keepsPoint\<close> says that the call has
  inserted at \<open>x\<close> at most that often, and \<open>k\<close> times more. \<open>insertions\<close> are the
  points of the insertions among the reported edits, \<open>wideRanges\<close> the ranges of the
  other reported edits.
\<close>

definition ownPoints :: "graph \<Rightarrow> funcDecl \<Rightarrow> pos list" where
  "ownPoints g d = declPoints d @ map callPoint (callersOf g (fnId (declObj d)))"

definition newlyDecl :: "graph \<Rightarrow> pos \<Rightarrow> diagState \<Rightarrow> diagState \<Rightarrow> bool" where
  "newlyDecl g x st st' =
     (\<exists>d \<in> set (graphDecls g).
        x \<in> set (ownPoints g d) \<and> declId d \<in> paramAdded st' \<and> declId d \<notin> paramAdded st)"

definition newlyFile :: "pass \<Rightarrow> pos \<Rightarrow> diagState \<Rightarrow> diagState \<Rightarrow> bool" where
  "newlyFile p x st st' =
     (\<exists>f \<in> set (files p).
        importPoint f = Some x \<and> fileId f \<in> contextImported st' \<and>
        fileId f \<notin> contextImported st)"

definition budget :: "pass \<Rightarrow> graph \<Rightarrow> pos \<Rightarrow> diagState \<Rightarrow> diagState \<Rightarrow> nat" where
  "budget p g x st st' =
     (if newlyDecl g x st st' then 1 else 0) + (if newlyFile p x st st' then 1 else 0)"

definition keepsPoint ::
  "pass \<Rightarrow> graph \<Rightarrow> pos \<Rightarrow> nat \<Rightarrow> diagState \<Rightarrow> textEdit list \<Rightarrow> diagState \<Rightarrow> bool" where
  "keepsPoint p g x k st es st' =
     (paramAdded st \<subseteq> paramAdded st' \<and> contextImported st \<subseteq> contextImported st' \<and>
      count_list (map tePos es) x \<le> budget p g x st st' + k)"

definition insertions :: "diagState \<Rightarrow> pos list" where
  "insertions st = map tePos (filter (\<lambda>e. tePos e = teEnd e) (allEdits (reports st)))"

text \<open>
  \<open>passKeeps\<close>: between two states of the pass, the reported insertions at \<open>x\<close> have
  grown by at most the budget, and \<open>k\<close> more.
\<close>

definition passKeeps ::
  "pass \<Rightarrow> graph \<Rightarrow> pos \<Rightarrow> nat \<Rightarrow> diagState \<Rightarrow> diagState \<Rightarrow> bool" where
  "passKeeps p g x k st st' =
     (paramAdded st \<subseteq> paramAdded st' \<and> contextImported st \<subseteq> contextImported st' \<and>
      count_list (insertions st') x \<le> count_list (insertions st) x + budget p g x st st' + k)"

definition wideRanges :: "diagState \<Rightarrow> (pos \<times> pos) list" where
  "wideRanges st = filter (\<lambda>r. fst r < snd r) (map editRange (allEdits (reports st)))"

section \<open>Example inputs\<close>

text \<open>
  \<^verbatim>\<open>context.Context\<close>; \<^verbatim>\<open>*http.Request\<close>, whose \<^verbatim>\<open>Context()\<close> returns a context; a type
  \<^verbatim>\<open>Store\<close> with a method \<^verbatim>\<open>Context(key int) context.Context\<close>.
\<close>

definition contextType :: ty where
  "contextType = Named (Some \<lparr>tnPkg = Some ''context'', tnName = ''Context''\<rparr>) []"

definition requestType :: ty where
  "requestType =
     Pointer (Named (Some \<lparr>tnPkg = Some ''net/http'', tnName = ''Request''\<rparr>)
       [Method ''Context'' [] [contextType]])"

definition storeType :: ty where
  "storeType =
     Named (Some \<lparr>tnPkg = Some ''example'', tnName = ''Store''\<rparr>)
       [Method ''Context'' [OtherType] [contextType]]"

text \<open>The call \<^verbatim>\<open>context.TODO()\<close> written at a position.\<close>

definition todoObj :: object where
  "todoObj = \<lparr>objId = 100, objIsFunc = True, objPkgPath = Some ''context'', objName = ''TODO''\<rparr>"

definition todoCallExpr :: "pos \<Rightarrow> callExpr" where
  "todoCallExpr at = \<lparr>cPos = at, cEnd = at + 14, cLparen = at + 12, cRparen = at + 13\<rparr>"

definition todoCall :: "pos \<Rightarrow> node" where
  "todoCall at =
     CallExpr (todoCallExpr at)
       (SelectorExpr at (at + 12)
          (Ident \<lparr>idName = ''context'', idPos = at, idEnd = at + 7, idObj = None\<rparr>)
          \<lparr>idName = ''TODO'', idPos = at + 8, idEnd = at + 12, idObj = Some todoObj\<rparr>)
       []"

text \<open>
  A package \<^verbatim>\<open>example\<close> of one file \<^verbatim>\<open>/work/a.go\<close>, which starts with
  \<^verbatim>\<open>import "context"\<close> at 3 and has its function declaration at 10.
\<close>

definition onePass :: pass where
  "onePass =
     \<lparr>fset = (\<lambda>p. ''/work/a.go''), moduleCache = ''/modcache'', pkgPath = ''example'',
      files = [\<lparr>fileId = 0, filePos = 1, fileImports = [quoted ''context''],
                fileDecls = [GenDecl ''import'' 0 3, OtherDecl 10]\<rparr>],
      importedFact = (\<lambda>k. False)\<rparr>"

text \<open>
  \<^verbatim>\<open>func f(*http.Request) { context.TODO() }\<close>: the declaration at 10, the parameter at
  17, the body from 32, the request at 35.
\<close>

definition unnamedParam :: var where
  "unnamedParam = \<lparr>vName = [], vPos = 17, vType = requestType\<rparr>"

definition unnamedDecl :: funcDecl where
  "unnamedDecl =
     \<lparr>declId = 1,
      declObj = \<lparr>fnId = 1, fnName = ''f'', fnPkgName = ''example'', fnRecv = False,
                 fnParams = [unnamedParam], fnExported = False\<rparr>,
      declPos = 10, declEnd = 60, declName = ''f'', declNamePos = 15,
      declParamsOpening = 16, declBodyLbrace = 32, declScope = [unnamedParam]\<rparr>"

definition unnamedFile :: node where
  "unnamedFile = File 1 100 [FuncDecl unnamedDecl [todoCall 35]]"

text \<open>
  \<^verbatim>\<open>func g() { if ... { r := ...; context.TODO() } }\<close>: \<^verbatim>\<open>r\<close> of type \<^verbatim>\<open>*http.Request\<close>
  is declared at 25 in the scope of the block from 20 to 60, the request is at 40.
\<close>

definition blockVar :: var where
  "blockVar = \<lparr>vName = ''r'', vPos = 25, vType = requestType\<rparr>"

definition blockDecl :: funcDecl where
  "blockDecl =
     \<lparr>declId = 2,
      declObj = \<lparr>fnId = 2, fnName = ''g'', fnPkgName = ''example'', fnRecv = False,
                 fnParams = [], fnExported = False\<rparr>,
      declPos = 10, declEnd = 70, declName = ''g'', declNamePos = 15,
      declParamsOpening = 16, declBodyLbrace = 19, declScope = []\<rparr>"

definition blockStmt :: node where
  "blockStmt = BlockStmt 20 60 [blockVar] [todoCall 40]"

definition blockPath :: astPath where
  "blockPath =
     [File 1 100 [FuncDecl blockDecl [blockStmt]], FuncDecl blockDecl [blockStmt],
      blockStmt, todoCall 40]"

text \<open>
  A variable \<^verbatim>\<open>s\<close> of type \<^verbatim>\<open>Store\<close>, declared at 5.
\<close>

definition storeVar :: var where
  "storeVar = \<lparr>vName = ''s'', vPos = 5, vType = storeType\<rparr>"

text \<open>
  Two files: positions below 100 are in \<^verbatim>\<open>/work/app/a.go\<close>, the others in
  \<^verbatim>\<open>/modcache/dep/b.go\<close>. One diagnostic is in the first file and edits the second,
  the other is in the second file and edits the first.
\<close>

definition cacheFset :: "pos \<Rightarrow> string" where
  "cacheFset p = (if p < 100 then ''/work/app/a.go'' else ''/modcache/dep/b.go'')"

definition diagInWork :: diagnostic where
  "diagInWork =
     plumbDiag ''Plumb context'' (todoCallExpr 10)
       [\<lparr>tePos = 150, teEnd = 150, teNewText = ''ctx, ''\<rparr>]"

definition diagInCache :: diagnostic where
  "diagInCache =
     plumbDiag ''Plumb context'' (todoCallExpr 150)
       [\<lparr>tePos = 20, teEnd = 20, teNewText = ''ctx, ''\<rparr>]"

text \<open>The request of \<^verbatim>\<open>f\<close> above, as the walk records it.\<close>

definition unnamedTodo :: localCall where
  "unnamedTodo =
     \<lparr>path = [unnamedFile, FuncDecl unnamedDecl [todoCall 35], todoCall 35],
      call = todoCallExpr 35, assign = None\<rparr>"

text \<open>
  \<^verbatim>\<open>func g() { func(int, context.Context) { context.TODO() }(...) }\<close>: the literal from
  22, its two unnamed fields at 27 and 32, the request at 50.
\<close>

definition litLit :: funcLit where
  "litLit =
     \<lparr>litPos = 22, litEnd = 70,
      litParams = [\<lparr>fldNames = [], fldType = Some OtherType, fldPos = 27, fldEnd = 30\<rparr>,
                   \<lparr>fldNames = [], fldType = Some contextType, fldPos = 32, fldEnd = 47\<rparr>],
      litScope = []\<rparr>"

definition litTodo :: localCall where
  "litTodo =
     \<lparr>path = [File 1 100 [FuncDecl blockDecl [FuncLit litLit [todoCall 50]]],
              FuncDecl blockDecl [FuncLit litLit [todoCall 50]],
              FuncLit litLit [todoCall 50], todoCall 50],
      call = todoCallExpr 50, assign = None\<rparr>"

text \<open>
  \<^verbatim>\<open>func h() { r := http.NewRequest(); ctx := context.TODO() }\<close>: \<^verbatim>\<open>r\<close> of type
  \<^verbatim>\<open>*http.Request\<close> is declared at 25 in the scope of the function, the assignment is
  at 40 and its request at 47.
\<close>

definition assignDecl :: funcDecl where
  "assignDecl =
     \<lparr>declId = 3,
      declObj = \<lparr>fnId = 3, fnName = ''h'', fnPkgName = ''example'', fnRecv = False,
                 fnParams = [], fnExported = False\<rparr>,
      declPos = 10, declEnd = 70, declName = ''h'', declNamePos = 15,
      declParamsOpening = 16, declBodyLbrace = 19,
      declScope = [\<lparr>vName = ''r'', vPos = 25, vType = requestType\<rparr>]\<rparr>"

definition newRequestCall :: node where
  "newRequestCall =
     CallExpr \<lparr>cPos = 30, cEnd = 38, cLparen = 36, cRparen = 37\<rparr>
       (SelectorExpr 30 36
          (Ident \<lparr>idName = ''http'', idPos = 30, idEnd = 34, idObj = None\<rparr>)
          \<lparr>idName = ''NewRequest'', idPos = 35, idEnd = 36,
            idObj = Some \<lparr>objId = 101, objIsFunc = True, objPkgPath = Some ''net/http'',
                          objName = ''NewRequest''\<rparr>\<rparr>)
       []"

definition assignStmtNode :: node where
  "assignStmtNode =
     AssignStmt \<lparr>asPos = 40, asEnd = 61\<rparr>
       [Ident \<lparr>idName = ''ctx'', idPos = 40, idEnd = 43, idObj = None\<rparr>] [todoCall 47]"

definition assignFile :: node where
  "assignFile =
     File 1 100
       [FuncDecl assignDecl
          [AssignStmt \<lparr>asPos = 25, asEnd = 38\<rparr>
             [Ident \<lparr>idName = ''r'', idPos = 25, idEnd = 26, idObj = None\<rparr>] [newRequestCall],
           assignStmtNode]]"

definition assignPath :: astPath where
  "assignPath =
     [assignFile,
      FuncDecl assignDecl
          [AssignStmt \<lparr>asPos = 25, asEnd = 38\<rparr>
             [Ident \<lparr>idName = ''r'', idPos = 25, idEnd = 26, idObj = None\<rparr>] [newRequestCall],
           assignStmtNode],
      assignStmtNode]"

text \<open>
  \<^verbatim>\<open>func k(ctx int) { context.TODO() }\<close>: the declaration from 10 to 60, the request
  at 35.
\<close>

definition wrongDecl :: funcDecl where
  "wrongDecl =
     \<lparr>declId = 4,
      declObj = \<lparr>fnId = 4, fnName = ''k'', fnPkgName = ''example'', fnRecv = False,
                 fnParams = [\<lparr>vName = ''ctx'', vPos = 17, vType = OtherType\<rparr>],
                 fnExported = False\<rparr>,
      declPos = 10, declEnd = 60, declName = ''k'', declNamePos = 15,
      declParamsOpening = 16, declBodyLbrace = 32,
      declScope = [\<lparr>vName = ''ctx'', vPos = 17, vType = OtherType\<rparr>]\<rparr>"

definition wrongFile :: node where
  "wrongFile = File 1 100 [FuncDecl wrongDecl [todoCall 35]]"

definition wrongTodo :: localCall where
  "wrongTodo =
     \<lparr>path = [wrongFile, FuncDecl wrongDecl [todoCall 35], todoCall 35],
      call = todoCallExpr 35, assign = None\<rparr>"

text \<open>
  Package \<^verbatim>\<open>main\<close>: \<^verbatim>\<open>func main() { context.TODO(); context.TODO() }\<close>, the body from
  32, the requests at 35 and 55.
\<close>

definition mainDecl :: funcDecl where
  "mainDecl =
     \<lparr>declId = 5,
      declObj = \<lparr>fnId = 5, fnName = ''main'', fnPkgName = ''main'', fnRecv = False,
                 fnParams = [], fnExported = False\<rparr>,
      declPos = 10, declEnd = 80, declName = ''main'', declNamePos = 15,
      declParamsOpening = 19, declBodyLbrace = 32, declScope = []\<rparr>"

definition mainFile :: node where
  "mainFile = File 1 100 [FuncDecl mainDecl [todoCall 35, todoCall 55]]"

definition mainTodo :: localCall where
  "mainTodo =
     \<lparr>path = [mainFile, FuncDecl mainDecl [todoCall 35, todoCall 55], todoCall 35],
      call = todoCallExpr 35, assign = None\<rparr>"

text \<open>
  \<^verbatim>\<open>func i(r *http.Request) { context.TODO() }\<close> with the request at 35, and
  \<^verbatim>\<open>func j(r *http.Request) { ctx := context.TODO() }\<close> with the assignment at 35 and
  its request at 42.
\<close>

definition namedDecl :: funcDecl where
  "namedDecl =
     \<lparr>declId = 6,
      declObj = \<lparr>fnId = 6, fnName = ''i'', fnPkgName = ''example'', fnRecv = False,
                 fnParams = [\<lparr>vName = ''r'', vPos = 17, vType = requestType\<rparr>],
                 fnExported = False\<rparr>,
      declPos = 10, declEnd = 60, declName = ''i'', declNamePos = 15,
      declParamsOpening = 16, declBodyLbrace = 32,
      declScope = [\<lparr>vName = ''r'', vPos = 17, vType = requestType\<rparr>]\<rparr>"

definition namedTodo :: localCall where
  "namedTodo =
     \<lparr>path = [File 1 100 [FuncDecl namedDecl [todoCall 35]],
              FuncDecl namedDecl [todoCall 35], todoCall 35],
      call = todoCallExpr 35, assign = None\<rparr>"

definition namedAssign :: node where
  "namedAssign =
     AssignStmt \<lparr>asPos = 35, asEnd = 56\<rparr>
       [Ident \<lparr>idName = ''ctx'', idPos = 35, idEnd = 38, idObj = None\<rparr>] [todoCall 42]"

definition namedAssignTodo :: localCall where
  "namedAssignTodo =
     \<lparr>path = [File 1 100 [FuncDecl namedDecl [namedAssign]],
              FuncDecl namedDecl [namedAssign], namedAssign],
      call = todoCallExpr 42, assign = Some \<lparr>asPos = 35, asEnd = 56\<rparr>\<rparr>"

text \<open>
  A test file \<^verbatim>\<open>/work/a_test.go\<close> with \<^verbatim>\<open>func TestFoo(t *testing.T) { context.TODO() }\<close>,
  where \<^verbatim>\<open>testing.T\<close> has no \<^verbatim>\<open>Context\<close> method; the request is at 45.
\<close>

definition testPass :: pass where
  "testPass =
     \<lparr>fset = (\<lambda>p. ''/work/a_test.go''), moduleCache = ''/modcache'', pkgPath = ''example'',
      files = [\<lparr>fileId = 0, filePos = 1, fileImports = [quoted ''context'', quoted ''testing''],
                fileDecls = [GenDecl ''import'' 2 3, OtherDecl 10]\<rparr>],
      importedFact = (\<lambda>k. False)\<rparr>"

definition testDecl :: funcDecl where
  "testDecl =
     \<lparr>declId = 7,
      declObj = \<lparr>fnId = 7, fnName = ''TestFoo'', fnPkgName = ''example'', fnRecv = False,
                 fnParams = [\<lparr>vName = ''t'', vPos = 23,
                              vType = Pointer (Named (Some \<lparr>tnPkg = Some ''testing'',
                                                             tnName = ''T''\<rparr>) [])\<rparr>],
                 fnExported = True\<rparr>,
      declPos = 10, declEnd = 70, declName = ''TestFoo'', declNamePos = 15,
      declParamsOpening = 22, declBodyLbrace = 40,
      declScope = [\<lparr>vName = ''t'', vPos = 23,
                    vType = Pointer (Named (Some \<lparr>tnPkg = Some ''testing'',
                                                   tnName = ''T''\<rparr>) [])\<rparr>]\<rparr>"

definition testTodo :: localCall where
  "testTodo =
     \<lparr>path = [File 1 100 [FuncDecl testDecl [todoCall 45]],
              FuncDecl testDecl [todoCall 45], todoCall 45],
      call = todoCallExpr 45, assign = None\<rparr>"

text \<open>
  Two functions that call each other:
  \<^verbatim>\<open>func cycle1() { log.Println(context.TODO()); cycle2() }\<close> from 10, with the request
  at 42 and the call of \<^verbatim>\<open>cycle2\<close> at 60, and \<^verbatim>\<open>func cycle2() { cycle1() }\<close> from 90,
  with the call of \<^verbatim>\<open>cycle1\<close> at 110.
\<close>

definition cycle1Decl :: funcDecl where
  "cycle1Decl =
     \<lparr>declId = 8,
      declObj = \<lparr>fnId = 8, fnName = ''cycle1'', fnPkgName = ''example'', fnRecv = False,
                 fnParams = [], fnExported = False\<rparr>,
      declPos = 10, declEnd = 80, declName = ''cycle1'', declNamePos = 15,
      declParamsOpening = 21, declBodyLbrace = 24, declScope = []\<rparr>"

definition cycle2Decl :: funcDecl where
  "cycle2Decl =
     \<lparr>declId = 9,
      declObj = \<lparr>fnId = 9, fnName = ''cycle2'', fnPkgName = ''example'', fnRecv = False,
                 fnParams = [], fnExported = False\<rparr>,
      declPos = 90, declEnd = 130, declName = ''cycle2'', declNamePos = 95,
      declParamsOpening = 101, declBodyLbrace = 104, declScope = []\<rparr>"

definition localCallNode :: "pos \<Rightarrow> string \<Rightarrow> nat \<Rightarrow> node" where
  "localCallNode at name k =
     CallExpr \<lparr>cPos = at, cEnd = at + 8, cLparen = at + 6, cRparen = at + 7\<rparr>
       (Ident \<lparr>idName = name, idPos = at, idEnd = at + 6,
               idObj = Some \<lparr>objId = k, objIsFunc = True, objPkgPath = Some ''example'',
                             objName = name\<rparr>\<rparr>)
       []"

definition printlnCall :: node where
  "printlnCall =
     CallExpr \<lparr>cPos = 30, cEnd = 57, cLparen = 41, cRparen = 56\<rparr>
       (SelectorExpr 30 41
          (Ident \<lparr>idName = ''log'', idPos = 30, idEnd = 33, idObj = None\<rparr>)
          \<lparr>idName = ''Println'', idPos = 34, idEnd = 41,
            idObj = Some \<lparr>objId = 102, objIsFunc = True, objPkgPath = Some ''log'',
                          objName = ''Println''\<rparr>\<rparr>)
       [todoCall 42]"

definition cycleFile :: node where
  "cycleFile =
     File 1 200
       [FuncDecl cycle1Decl [printlnCall, localCallNode 60 ''cycle2'' 9],
        FuncDecl cycle2Decl [localCallNode 110 ''cycle1'' 8]]"




text \<open>
  A package whose file \<^verbatim>\<open>/work/a.go\<close> imports only \<^verbatim>\<open>log\<close>, in an import declaration
  without parentheses at 3, and has declarations at 10 and 90.
\<close>

definition plainPass :: pass where
  "plainPass =
     \<lparr>fset = (\<lambda>p. ''/work/a.go''), moduleCache = ''/modcache'', pkgPath = ''example'',
      files = [\<lparr>fileId = 0, filePos = 1, fileImports = [quoted ''log''],
                fileDecls = [GenDecl ''import'' 0 3, OtherDecl 10, OtherDecl 90]\<rparr>],
      importedFact = (\<lambda>k. False)\<rparr>"
section \<open>Properties of the resolver\<close>

lemma firstProvider_Nil [simp]: "firstProvider [] = ([], False)"
  by (simp add: firstProvider_def)

lemma firstProvider_Cons:
  "firstProvider (c # cs) =
     (if isContextContext (snd c) then (fst c, True)
      else if typeHasContextMethod (snd c) then (fst c @ ''.Context()'', True)
      else firstProvider cs)"
  by (simp add: firstProvider_def)

lemma firstProvider_append:
  "firstProvider (xs @ ys) =
     (if snd (firstProvider xs) then firstProvider xs else firstProvider ys)"
  by (induction xs) (simp_all add: firstProvider_Cons)

lemma providerParamLoop_first:
  "fst (providerParamLoop i ps) = firstProvider (paramCandidates i ps)"
  by (induction ps arbitrary: i) (simp_all add: firstProvider_Cons Let_def split: prod.splits)

lemma providerFieldLoop_first:
  "fst (providerFieldLoop i fs) = firstProvider (fieldCandidates i fs)"
  by (induction fs arbitrary: i)
     (simp_all add: firstProvider_Cons Let_def split: prod.splits option.splits)

lemma providerInScope_first:
  "hasContextProviderInScope sc at = firstProvider (scopeCandidates sc at)"
  by (induction sc) (simp_all add: firstProvider_Cons scopeCandidates_def)

lemma providerInPath_first:
  "fst (providerInPath ns at) = firstProvider (searchOrder ns at)"
proof (induction ns arbitrary: at)
  case Nil
  show ?case by simp
next
  case (Cons n prev)
  show ?case
  proof (cases n)
    case (FuncDecl d cs)
    then show ?thesis
      using Cons.IH [of at]
      by (simp add: firstProvider_append hasContextProviderParam_def
          providerParamLoop_first [symmetric] providerInScope_first [symmetric]
          case_prod_beta)
  next
    case (FuncLit l cs)
    then show ?thesis
      using Cons.IH [of at]
      by (simp add: firstProvider_append hasContextProviderField_def
          providerFieldLoop_first [symmetric] providerInScope_first [symmetric]
          case_prod_beta)
  qed (simp_all add: Cons.IH)
qed

text \<open>
  C6, as the code has it: the resolver returns the first qualifying candidate of the
  search order of the code, which visits only the enclosing function literals and the
  enclosing function declaration (not the scopes of nested blocks), at each the
  parameters in declaration order and then the objects of its function scope declared
  strictly before the current position; it fails when no candidate qualifies.
\<close>

theorem resolver_search_order:
  "fst (hasContextProviderInPath caller at) = firstProvider (searchOrder (rev caller) at)"
  by (simp add: hasContextProviderInPath_def providerInPath_first)

text \<open>
  C6 as stated fails: a variable of a nested block, declared before the request in an
  enclosing lexical scope, is found by the resolver of the specification and not by
  the code.
\<close>

theorem resolver_skips_block_scopes:
  "fst (hasContextProviderInPath blockPath 40) = ([], False) \<and>
   specResolver blockPath 40 = (''r.Context()'', True)"
  by code_simp

text \<open>
  C7 fails on the code: \<^verbatim>\<open>typeHasContextMethod\<close> checks the name and the result of the
  method and not its parameters, so a variable whose type has a method
  \<^verbatim>\<open>Context(key int) context.Context\<close> is taken as a provider, with the expression
  \<^verbatim>\<open>s.Context()\<close>, though its type has no zero-argument accessor.
\<close>

theorem accessor_with_parameter_qualifies:
  "\<not> specQualifies storeType \<and>
   hasContextProviderInScope [storeVar] 10 = (''s.Context()'', True)"
  by code_simp


section \<open>Properties of the report filter\<close>

text \<open>
  C9 fails on the code: \<^verbatim>\<open>filterReports\<close> looks up the file of the position of the
  diagnostic, not of its edits. A diagnostic outside the module cache whose edit is
  inside it is reported, and a diagnostic inside the module cache whose edit is
  outside it is dropped.
\<close>

theorem filterReports_reads_diagnostic_position:
  "hasPrefix (cacheFset 150) ''/modcache'' \<and>
   filterReports cacheFset ''/modcache'' diagInWork [] = [diagInWork] \<and>
   \<not> hasPrefix (cacheFset 20) ''/modcache'' \<and>
   filterReports cacheFset ''/modcache'' diagInCache [] = []"
  by code_simp


section \<open>Unnamed parameters\<close>

lemma providerParamLoop_unnamed:
  "i < length ps \<Longrightarrow> vName (ps ! i) = [] \<Longrightarrow>
   isContextContext (vType (ps ! i)) \<or> typeHasContextMethod (vType (ps ! i)) \<Longrightarrow>
   \<forall>j<i. \<not> isContextContext (vType (ps ! j)) \<and> \<not> typeHasContextMethod (vType (ps ! j)) \<Longrightarrow>
   fst (providerParamLoop k ps) =
     (''unnamedParam'' @ decimal (k + i) @
        (if isContextContext (vType (ps ! i)) then [] else ''.Context()''), True) \<and>
   diagAt (vPos (ps ! i)) nameThisParam \<in> set (snd (providerParamLoop k ps))"
proof (induction ps arbitrary: i k)
  case Nil
  then show ?case by simp
next
  case (Cons q qs)
  show ?case
  proof (cases i)
    case 0
    with Cons.prems show ?thesis by (auto simp: Let_def)
  next
    case (Suc m)
    from Cons.prems Suc have q: "\<not> isContextContext (vType q)" "\<not> typeHasContextMethod (vType q)"
      by auto
    from Cons.prems Suc have
      "fst (providerParamLoop (Suc k) qs) =
         (''unnamedParam'' @ decimal (Suc k + m) @
            (if isContextContext (vType (qs ! m)) then [] else ''.Context()''), True) \<and>
       diagAt (vPos (qs ! m)) nameThisParam \<in> set (snd (providerParamLoop (Suc k) qs))"
      by (intro Cons.IH) auto
    with q Suc show ?thesis by (simp add: Let_def split: prod.splits)
  qed
qed

lemma providerFieldLoop_unnamed:
  "i < length fs \<Longrightarrow> fldNames (fs ! i) = [] \<Longrightarrow> fldType (fs ! i) = Some t \<Longrightarrow>
   isContextContext t \<or> typeHasContextMethod t \<Longrightarrow>
   \<forall>j<i. list_all (\<lambda>u. \<not> isContextContext u \<and> \<not> typeHasContextMethod u)
            (case fldType (fs ! j) of None \<Rightarrow> [] | Some u \<Rightarrow> [u]) \<Longrightarrow>
   fst (providerFieldLoop k fs) =
     (''unnamedParam'' @ decimal (k + i) @ (if isContextContext t then [] else ''.Context()''), True) \<and>
   diagRange (fldPos (fs ! i)) (fldEnd (fs ! i)) nameThisParam \<in> set (snd (providerFieldLoop k fs))"
proof (induction fs arbitrary: i k)
  case Nil
  then show ?case by simp
next
  case (Cons q qs)
  show ?case
  proof (cases i)
    case 0
    with Cons.prems show ?thesis by (auto simp: Let_def)
  next
    case (Suc m)
    from Cons.prems Suc have q:
      "list_all (\<lambda>u. \<not> isContextContext u \<and> \<not> typeHasContextMethod u)
         (case fldType q of None \<Rightarrow> [] | Some u \<Rightarrow> [u])"
      by auto
    from Cons.prems Suc have
      "fst (providerFieldLoop (Suc k) qs) =
         (''unnamedParam'' @ decimal (Suc k + m) @
            (if isContextContext t then [] else ''.Context()''), True) \<and>
       diagRange (fldPos (qs ! m)) (fldEnd (qs ! m)) nameThisParam
         \<in> set (snd (providerFieldLoop (Suc k) qs))"
      by (intro Cons.IH) auto
    with q Suc show ?thesis by (auto simp add: Let_def split: prod.splits option.splits)
  qed
qed

lemma providerInPath_skip:
  "list_all (\<lambda>n. \<not> isFunctionNode n) ns \<Longrightarrow>
   \<exists>at'. providerInPath (ns @ rest) at = providerInPath rest at'"
proof (induction ns arbitrary: at)
  case Nil
  show ?case by auto
next
  case (Cons n ns)
  then show ?case by (cases n) auto
qed

lemma filterReports_no_fixes:
  "dFixes d = [] \<Longrightarrow> filterReports fs mc d rs = rs @ [d]"
  by (simp add: filterReports_def filterDrops_def)

lemma reportAll_no_fixes:
  "list_all (\<lambda>d. dFixes d = []) ds \<Longrightarrow> reportAll p ds st = st\<lparr>reports := reports st @ ds\<rparr>"
  by (induction ds arbitrary: st) (simp_all add: report_def filterReports_no_fixes)

lemma providerParamLoop_no_fixes:
  "list_all (\<lambda>d. dFixes d = []) (snd (providerParamLoop i ps))"
  by (induction ps arbitrary: i) (auto simp: Let_def diagAt_def split: prod.splits)

lemma providerFieldLoop_no_fixes:
  "list_all (\<lambda>d. dFixes d = []) (snd (providerFieldLoop i fs))"
  by (induction fs arbitrary: i) (auto simp: Let_def diagRange_def split: prod.splits option.splits)

lemma providerInPath_no_fixes:
  "list_all (\<lambda>d. dFixes d = []) (snd (providerInPath ns at))"
proof (induction ns arbitrary: at)
  case Nil
  show ?case by simp
next
  case (Cons n prev)
  show ?case
  proof (cases n)
    case (FuncDecl d cs)
    then show ?thesis
      using Cons.IH [of at] providerParamLoop_no_fixes [of 0 "fnParams (declObj d)"]
      by (auto simp: hasContextProviderParam_def split: prod.splits)
  next
    case (FuncLit l cs)
    then show ?thesis
      using Cons.IH [of at] providerFieldLoop_no_fixes [of 0 "litParams l"]
      by (auto simp: hasContextProviderField_def split: prod.splits)
  qed (simp_all add: Cons.IH)
qed

text \<open>
  C1 as stated fails: for \<^verbatim>\<open>func f(*http.Request) { context.TODO() }\<close> the pass
  reports the naming diagnostic and also rewrites the request, with the unnamed
  parameter as the source under its synthetic name.
\<close>

theorem unnamed_parameter_is_used_counterexample:
  "run 1 onePass [unnamedFile] =
     Inr (Some \<lparr>paramAdded = {}, contextImported = {},
       reports =
         [diagAt 17 nameThisParam,
          plumbDiag ''Plumb context'' (todoCallExpr 35)
            [\<lparr>tePos = 35, teEnd = 49, teNewText = ''unnamedParam0.Context()''\<rparr>]],
       facts = []\<rparr>)"
  by code_simp


text \<open>
  C1, as the code has it: when the innermost function around a bare request is a
  declaration (or a literal) whose first qualifying parameter is unnamed, at index
  \<open>i\<close>, the naming diagnostic for that parameter is reported and the request is
  replaced by \<^verbatim>\<open>unnamedParam<i>\<close>, followed by \<^verbatim>\<open>.Context()\<close> in the accessor case.
\<close>

theorem unnamed_provider_is_used:
  "(assign todo = None \<and> path todo = outer @ [FuncDecl d cs] @ inner \<and>
    list_all (\<lambda>n. \<not> isFunctionNode n) inner \<and>
    i < length (fnParams (declObj d)) \<and> vName (fnParams (declObj d) ! i) = [] \<and>
    (isContextContext (vType (fnParams (declObj d) ! i)) \<or>
       typeHasContextMethod (vType (fnParams (declObj d) ! i))) \<and>
    list_all (\<lambda>q. \<not> isContextContext (vType q) \<and> \<not> typeHasContextMethod (vType q))
      (take i (fnParams (declObj d)))
    \<longrightarrow>
      diagAt (vPos (fnParams (declObj d) ! i)) nameThisParam
        \<in> set (snd (hasContextProviderParam (declObj d))) \<and>
      rewriteTODO n p g todo st =
        Some (report p
          (plumbDiag ''Plumb context'' (call todo)
             [\<lparr>tePos = cPos (call todo), teEnd = cEnd (call todo),
               teNewText = ''unnamedParam'' @ decimal i @
                 (if isContextContext (vType (fnParams (declObj d) ! i)) then []
                  else ''.Context()'')\<rparr>])
          (st\<lparr>reports := reports st @ snd (hasContextProviderParam (declObj d))\<rparr>)))
   \<and>
   (assign todo = None \<and> path todo = outer @ [FuncLit l cs] @ inner \<and>
    list_all (\<lambda>n. \<not> isFunctionNode n) inner \<and>
    i < length (litParams l) \<and> fldNames (litParams l ! i) = [] \<and>
    fldType (litParams l ! i) = Some t \<and>
    (isContextContext t \<or> typeHasContextMethod t) \<and>
    list_all (\<lambda>f. list_all (\<lambda>u. \<not> isContextContext u \<and> \<not> typeHasContextMethod u)
                    (case fldType f of None \<Rightarrow> [] | Some u \<Rightarrow> [u]))
      (take i (litParams l))
    \<longrightarrow>
      diagRange (fldPos (litParams l ! i)) (fldEnd (litParams l ! i)) nameThisParam
        \<in> set (snd (hasContextProviderField (litParams l))) \<and>
      rewriteTODO n p g todo st =
        Some (report p
          (plumbDiag ''Plumb context'' (call todo)
             [\<lparr>tePos = cPos (call todo), teEnd = cEnd (call todo),
               teNewText = ''unnamedParam'' @ decimal i @
                 (if isContextContext t then [] else ''.Context()'')\<rparr>])
          (st\<lparr>reports := reports st @ snd (hasContextProviderField (litParams l))\<rparr>)))"
proof (intro conjI impI)
  assume a: "assign todo = None \<and> path todo = outer @ [FuncDecl d cs] @ inner \<and>
    list_all (\<lambda>n. \<not> isFunctionNode n) inner \<and>
    i < length (fnParams (declObj d)) \<and> vName (fnParams (declObj d) ! i) = [] \<and>
    (isContextContext (vType (fnParams (declObj d) ! i)) \<or>
       typeHasContextMethod (vType (fnParams (declObj d) ! i))) \<and>
    list_all (\<lambda>q. \<not> isContextContext (vType q) \<and> \<not> typeHasContextMethod (vType q))
      (take i (fnParams (declObj d)))"
  let ?r = "hasContextProviderParam (declObj d)"
  from a have loop:
    "fst ?r = (''unnamedParam'' @ decimal i @
        (if isContextContext (vType (fnParams (declObj d) ! i)) then [] else ''.Context()''), True)"
    "diagAt (vPos (fnParams (declObj d) ! i)) nameThisParam \<in> set (snd ?r)"
    using providerParamLoop_unnamed [of i "fnParams (declObj d)" 0]
    by (simp_all add: hasContextProviderParam_def list_all_length)
  from a have "list_all (\<lambda>n. \<not> isFunctionNode n) (rev inner)" by simp
  then obtain at' where
    "providerInPath (rev inner @ FuncDecl d cs # rev outer) (cPos (call todo)) =
       providerInPath (FuncDecl d cs # rev outer) at'"
    using providerInPath_skip by blast
  moreover from loop(1) have ok: "snd (fst ?r)" by simp
  then have "providerInPath (FuncDecl d cs # rev outer) at' = ?r"
    by (simp add: case_prod_beta)
  ultimately have res:
    "hasContextProviderInPath (path todo) (cPos (call todo)) = ?r"
    using a by (simp add: hasContextProviderInPath_def)
  from loop(1) have ex: "fst (fst ?r) = ''unnamedParam'' @ decimal i @
        (if isContextContext (vType (fnParams (declObj d) ! i)) then [] else ''.Context()'')"
    by simp
  have nf: "list_all (\<lambda>d. dFixes d = []) (snd ?r)"
    by (simp add: hasContextProviderParam_def providerParamLoop_no_fixes)
  show "diagAt (vPos (fnParams (declObj d) ! i)) nameThisParam \<in> set (snd ?r)"
    by (rule loop)
  show "rewriteTODO n p g todo st =
        Some (report p
          (plumbDiag ''Plumb context'' (call todo)
             [\<lparr>tePos = cPos (call todo), teEnd = cEnd (call todo),
               teNewText = ''unnamedParam'' @ decimal i @
                 (if isContextContext (vType (fnParams (declObj d) ! i)) then []
                  else ''.Context()'')\<rparr>])
          (st\<lparr>reports := reports st @ snd ?r\<rparr>))"
    using a res ok reportAll_no_fixes [OF nf]
    unfolding ex [symmetric]
    by (simp add: rewriteTODO_def case_prod_beta)
next
  assume a: "assign todo = None \<and> path todo = outer @ [FuncLit l cs] @ inner \<and>
    list_all (\<lambda>n. \<not> isFunctionNode n) inner \<and>
    i < length (litParams l) \<and> fldNames (litParams l ! i) = [] \<and>
    fldType (litParams l ! i) = Some t \<and>
    (isContextContext t \<or> typeHasContextMethod t) \<and>
    list_all (\<lambda>f. list_all (\<lambda>u. \<not> isContextContext u \<and> \<not> typeHasContextMethod u)
                    (case fldType f of None \<Rightarrow> [] | Some u \<Rightarrow> [u]))
      (take i (litParams l))"
  let ?r = "hasContextProviderField (litParams l)"
  from a have loop:
    "fst ?r = (''unnamedParam'' @ decimal i @
        (if isContextContext t then [] else ''.Context()''), True)"
    "diagRange (fldPos (litParams l ! i)) (fldEnd (litParams l ! i)) nameThisParam \<in> set (snd ?r)"
    using providerFieldLoop_unnamed [of i "litParams l" t 0]
    by (simp_all add: hasContextProviderField_def list_all_length)
  from a have "list_all (\<lambda>n. \<not> isFunctionNode n) (rev inner)" by simp
  then obtain at' where
    "providerInPath (rev inner @ FuncLit l cs # rev outer) (cPos (call todo)) =
       providerInPath (FuncLit l cs # rev outer) at'"
    using providerInPath_skip by blast
  moreover from loop(1) have ok: "snd (fst ?r)" by simp
  then have "providerInPath (FuncLit l cs # rev outer) at' = ?r"
    by (simp add: case_prod_beta)
  ultimately have res:
    "hasContextProviderInPath (path todo) (cPos (call todo)) = ?r"
    using a by (simp add: hasContextProviderInPath_def)
  from loop(1) have ex: "fst (fst ?r) = ''unnamedParam'' @ decimal i @
        (if isContextContext t then [] else ''.Context()'')"
    by simp
  have nf: "list_all (\<lambda>d. dFixes d = []) (snd ?r)"
    by (simp add: hasContextProviderField_def providerFieldLoop_no_fixes)
  show "diagRange (fldPos (litParams l ! i)) (fldEnd (litParams l ! i)) nameThisParam \<in> set (snd ?r)"
    by (rule loop)
  show "rewriteTODO n p g todo st =
        Some (report p
          (plumbDiag ''Plumb context'' (call todo)
             [\<lparr>tePos = cPos (call todo), teEnd = cEnd (call todo),
               teNewText = ''unnamedParam'' @ decimal i @
                 (if isContextContext t then [] else ''.Context()'')\<rparr>])
          (st\<lparr>reports := reports st @ snd ?r\<rparr>))"
    using a res ok reportAll_no_fixes [OF nf]
    unfolding ex [symmetric]
    by (simp add: rewriteTODO_def case_prod_beta)
qed

theorem unnamed_provider_is_used_witness:
  "rewriteTODO 1 onePass emptyGraph unnamedTodo initialState =
     Some \<lparr>paramAdded = {}, contextImported = {},
       reports =
         [diagAt 17 nameThisParam,
          plumbDiag ''Plumb context'' (todoCallExpr 35)
            [\<lparr>tePos = 35, teEnd = 49, teNewText = ''unnamedParam0.Context()''\<rparr>]],
       facts = []\<rparr> \<and>
   rewriteTODO 1 onePass emptyGraph litTodo initialState =
     Some \<lparr>paramAdded = {}, contextImported = {},
       reports =
         [diagRange 32 47 nameThisParam,
          plumbDiag ''Plumb context'' (todoCallExpr 50)
            [\<lparr>tePos = 50, teEnd = 64, teNewText = ''unnamedParam1''\<rparr>]],
       facts = []\<rparr>"
proof -
  have h1: "assign unnamedTodo = None \<and>
    path unnamedTodo = [unnamedFile] @ [FuncDecl unnamedDecl [todoCall 35]] @ [todoCall 35] \<and>
    list_all (\<lambda>n. \<not> isFunctionNode n) [todoCall 35] \<and>
    0 < length (fnParams (declObj unnamedDecl)) \<and> vName (fnParams (declObj unnamedDecl) ! 0) = [] \<and>
    (isContextContext (vType (fnParams (declObj unnamedDecl) ! 0)) \<or>
       typeHasContextMethod (vType (fnParams (declObj unnamedDecl) ! 0))) \<and>
    list_all (\<lambda>q. \<not> isContextContext (vType q) \<and> \<not> typeHasContextMethod (vType q))
      (take 0 (fnParams (declObj unnamedDecl)))"
    by (simp add: unnamedTodo_def unnamedDecl_def unnamedParam_def requestType_def contextType_def
        isContextContext_def todoCall_def)
  have h2: "assign litTodo = None \<and>
    path litTodo = [File 1 100 [FuncDecl blockDecl [FuncLit litLit [todoCall 50]]],
              FuncDecl blockDecl [FuncLit litLit [todoCall 50]]] @ [FuncLit litLit [todoCall 50]] @ [todoCall 50] \<and>
    list_all (\<lambda>n. \<not> isFunctionNode n) [todoCall 50] \<and>
    1 < length (litParams litLit) \<and> fldNames (litParams litLit ! 1) = [] \<and>
    fldType (litParams litLit ! 1) = Some contextType \<and>
    (isContextContext contextType \<or> typeHasContextMethod contextType) \<and>
    list_all (\<lambda>f. list_all (\<lambda>u. \<not> isContextContext u \<and> \<not> typeHasContextMethod u)
                    (case fldType f of None \<Rightarrow> [] | Some u \<Rightarrow> [u]))
      (take 1 (litParams litLit))"
    by (simp add: litTodo_def litLit_def contextType_def isContextContext_def todoCall_def)
  have e1: "snd (hasContextProviderParam (declObj unnamedDecl)) = [diagAt 17 nameThisParam]"
    by code_simp
  have e2: "snd (hasContextProviderField (litParams litLit)) = [diagRange 32 47 nameThisParam]"
    by code_simp
  have d0: "decimal 0 = ''0''" and d1: "decimal (Suc 0) = ''1''"
    by code_simp+
  have c1: "isContextContext (vType (fnParams (declObj unnamedDecl) ! 0)) = False"
    by code_simp
  have c2: "isContextContext contextType = True"
    by code_simp
  have r1: "report onePass d (initialState\<lparr>reports := [x]\<rparr>) = initialState\<lparr>reports := filterReports (fset onePass) (moduleCache onePass) d [x]\<rparr>" for d x
    by (simp add: report_def)
  have f1: "filterDrops (fset onePass) (moduleCache onePass) (plumbDiag m c es) = False" for m c es
    by (simp add: filterDrops_def onePass_def hasPrefix_def list_ex_iff)
  from unnamed_provider_is_used [where todo = unnamedTodo and outer = "[unnamedFile]"
      and d = unnamedDecl and cs = "[todoCall 35]" and inner = "[todoCall 35]" and i = 0
      and n = 1 and p = onePass and g = emptyGraph and st = initialState,
      THEN conjunct1, rule_format, OF h1]
  have a: "rewriteTODO 1 onePass emptyGraph unnamedTodo initialState =
     Some \<lparr>paramAdded = {}, contextImported = {},
       reports =
         [diagAt 17 nameThisParam,
          plumbDiag ''Plumb context'' (todoCallExpr 35)
            [\<lparr>tePos = 35, teEnd = 49, teNewText = ''unnamedParam0.Context()''\<rparr>]],
       facts = []\<rparr>"
    by (simp add: e1 d0 c1 r1 f1 filterReports_def)
       (simp add: initialState_def unnamedTodo_def todoCallExpr_def report_def filterReports_def f1)
  from unnamed_provider_is_used [where todo = litTodo
      and outer = "[File 1 100 [FuncDecl blockDecl [FuncLit litLit [todoCall 50]]],
              FuncDecl blockDecl [FuncLit litLit [todoCall 50]]]"
      and l = litLit and cs = "[todoCall 50]" and inner = "[todoCall 50]" and i = 1
      and t = contextType
      and n = 1 and p = onePass and g = emptyGraph and st = initialState,
      THEN conjunct2, rule_format, OF h2]
  have b: "rewriteTODO 1 onePass emptyGraph litTodo initialState =
     Some \<lparr>paramAdded = {}, contextImported = {},
       reports =
         [diagRange 32 47 nameThisParam,
          plumbDiag ''Plumb context'' (todoCallExpr 50)
            [\<lparr>tePos = 50, teEnd = 64, teNewText = ''unnamedParam1''\<rparr>]],
       facts = []\<rparr>"
    by (simp add: e2 d1 c2 r1 f1 filterReports_def)
       (simp add: initialState_def litTodo_def todoCallExpr_def report_def filterReports_def f1)
  from a b show ?thesis by (rule conjI)
qed


section \<open>Properties of rewriting a request\<close>

lemma filterDrops_not_prefix:
  "\<not> hasPrefix (fs (dPos d)) mc \<Longrightarrow> \<not> filterDrops fs mc d"
  by (simp add: filterDrops_def list_ex_iff)

lemma report_fields [simp]:
  "paramAdded (report p d st) = paramAdded st"
  "contextImported (report p d st) = contextImported st"
  "facts (report p d st) = facts st"
  by (simp_all add: report_def)

lemma reportAll_fields [simp]:
  "paramAdded (reportAll p ds st) = paramAdded st"
  "contextImported (reportAll p ds st) = contextImported st"
  "facts (reportAll p ds st) = facts st"
  by (induction ds arbitrary: st) simp_all

lemma hasContextProviderInPath_no_fixes:
  "list_all (\<lambda>d. dFixes d = []) (snd (hasContextProviderInPath pth at))"
  by (simp add: hasContextProviderInPath_def providerInPath_no_fixes)

lemma requestDiags_no_fixes: "list_all (\<lambda>d. dFixes d = []) (requestDiags todo)"
  by (simp add: requestDiags_def hasContextProviderInPath_no_fixes split: option.splits)

lemma reportAll_requestDiags:
  "reportAll p (requestDiags todo) st = st\<lparr>reports := reports st @ requestDiags todo\<rparr>"
  by (rule reportAll_no_fixes [OF requestDiags_no_fixes])

text \<open>A request for which the resolver is not asked, or finds nothing.\<close>

lemma rewriteTODO_through:
  assumes "assign todo \<noteq> None \<or> \<not> snd (fst (hasContextProviderInPath (path todo) (cPos (call todo))))"
  shows "rewriteTODO n p g todo st =
     (case propagateContextThrough n p g (decl (path todo)) {}
             (st\<lparr>reports := reports st @ requestDiags todo\<rparr>) of
        None \<Rightarrow> None
      | Some (es, seen, st1) \<Rightarrow>
          Some (report p (plumbDiag ''Plumb context'' (call todo) (es @ [requestEdit todo ''ctx''])) st1))"
proof (cases "assign todo")
  case None
  with assms have "\<not> snd (fst (hasContextProviderInPath (path todo) (cPos (call todo))))"
    by simp
  with None reportAll_requestDiags [of p todo st] show ?thesis
    by (simp add: rewriteTODO_def requestEdit_def requestDiags_def case_prod_beta
        split: option.splits)
next
  case (Some a)
  then show ?thesis
    by (simp add: rewriteTODO_def requestEdit_def requestDiags_def split: option.splits)
qed

lemma rewriteTODO_provider:
  assumes "assign todo = None"
    and "hasContextProviderInPath (path todo) (cPos (call todo)) = ((expr, True), ds)"
  shows "rewriteTODO n p g todo st =
     Some (report p
       (plumbDiag ''Plumb context'' (call todo)
          [\<lparr>tePos = cPos (call todo), teEnd = cEnd (call todo), teNewText = expr\<rparr>])
       (st\<lparr>reports := reports st @ ds\<rparr>))"
proof -
  from assms(2) hasContextProviderInPath_no_fixes [of "path todo" "cPos (call todo)"]
  have "list_all (\<lambda>d. dFixes d = []) ds" by simp
  then have "reportAll p ds st = st\<lparr>reports := reports st @ ds\<rparr>"
    by (rule reportAll_no_fixes)
  with assms show ?thesis by (simp add: rewriteTODO_def)
qed

lemma importEdit_text:
  "editToImportContext p at st = (es, st') \<Longrightarrow>
   list_all (\<lambda>e. teNewText e \<noteq> ''ctx context.Context, '' \<and> tePos e = teEnd e) es"
  by (auto simp: editToImportContext_def Let_def quoted_def split: option.splits if_splits list.splits)

lemma importEdit_state:
  "editToImportContext p at st = (es, st') \<Longrightarrow>
   paramAdded st' = paramAdded st \<and> facts st' = facts st \<and> reports st' = reports st"
  by (auto simp: editToImportContext_def Let_def split: option.splits if_splits list.splits)

lemma through_guard:
  "declId d \<in> paramAdded st \<Longrightarrow>
   propagateContextThrough (Suc n) p g (Some d) {} st = Some ([], {fnId (declObj d)}, st)"
  by (simp add: propagateContextThrough.simps)

lemma through_ctx_param:
  "declId d \<notin> paramAdded st \<Longrightarrow>
   find (\<lambda>q. vName q = ''ctx'') (fnParams (declObj d)) = Some q \<Longrightarrow>
   propagateContextThrough (Suc n) p g (Some d) {} st =
     Some ([], {fnId (declObj d)},
       if isContextContext (vType q) then st\<lparr>paramAdded := insert (declId d) (paramAdded st)\<rparr>
       else report p (diagRange (declPos d) (declEnd d) ''Non-context ctx parameter'')
              (st\<lparr>paramAdded := insert (declId d) (paramAdded st)\<rparr>))"
  by (simp add: propagateContextThrough.simps Let_def)

lemma through_entry:
  "declId d \<notin> paramAdded st \<Longrightarrow>
   find (\<lambda>q. vName q = ''ctx'') (fnParams (declObj d)) = None \<Longrightarrow>
   isMainOrInit (declObj d) \<or> isTopLevelTestFunc p d \<Longrightarrow>
   propagateContextThrough (Suc n) p g (Some d) {} st =
     Some (editToAddContextVarDecl d ''context.Background()''
             # fst (editToImportContext p (declNamePos d)
                      (st\<lparr>paramAdded := insert (declId d) (paramAdded st)\<rparr>)),
           {fnId (declObj d)},
           snd (editToImportContext p (declNamePos d)
                  (st\<lparr>paramAdded := insert (declId d) (paramAdded st)\<rparr>)))"
  by (simp add: propagateContextThrough.simps Let_def case_prod_beta)

lemma through_provider_param:
  "declId d \<notin> paramAdded st \<Longrightarrow>
   find (\<lambda>q. vName q = ''ctx'') (fnParams (declObj d)) = None \<Longrightarrow>
   \<not> (isMainOrInit (declObj d) \<or> isTopLevelTestFunc p d) \<Longrightarrow>
   snd (fst (hasContextProviderParam (declObj d))) \<Longrightarrow>
   propagateContextThrough (Suc n) p g (Some d) {} st =
     Some (editToAddContextVarDecl d (fst (fst (hasContextProviderParam (declObj d))))
             # fst (editToImportContext p (declNamePos d)
                      (reportAll p (snd (hasContextProviderParam (declObj d)))
                         (st\<lparr>paramAdded := insert (declId d) (paramAdded st)\<rparr>))),
           {fnId (declObj d)},
           snd (editToImportContext p (declNamePos d)
                  (reportAll p (snd (hasContextProviderParam (declObj d)))
                     (st\<lparr>paramAdded := insert (declId d) (paramAdded st)\<rparr>))))"
  by (simp add: propagateContextThrough.simps Let_def case_prod_beta)

lemma varDecl_not_param: "editToAddContextVarDecl d c \<noteq> editToPrependCtxParam d'"
  by (simp add: editToAddContextVarDecl_def editToPrependCtxParam_def)

lemma importEdit_not_param:
  "editToPrependCtxParam d' \<notin> set (fst (editToImportContext p at st))"
proof -
  obtain es st' where e: "editToImportContext p at st = (es, st')" by (cases "editToImportContext p at st")
  from importEdit_text [OF e] show ?thesis
    by (auto simp: e list_all_iff editToPrependCtxParam_def)
qed

lemma prefixThenUpper_iff:
  "prefixThenUpper pre s =
     (\<exists>c rest. s = pre @ c # rest \<and> c \<in> set upperLetters)"
proof
  assume a: "prefixThenUpper pre s"
  then obtain c cs where d: "drop (length pre) s = c # cs"
    and c: "c \<in> set upperLetters"
    by (auto simp: prefixThenUpper_def split: list.splits)
  from a have "take (length pre) s = pre" by (simp add: prefixThenUpper_def hasPrefix_def)
  with d have "s = pre @ c # cs" by (metis append_take_drop_id)
  with c show "\<exists>c rest. s = pre @ c # rest \<and> c \<in> set upperLetters" by blast
next
  assume "\<exists>c rest. s = pre @ c # rest \<and> c \<in> set upperLetters"
  then obtain c rest where "s = pre @ c # rest" "c \<in> set upperLetters" by blast
  then show "prefixThenUpper pre s" by (simp add: prefixThenUpper_def hasPrefix_def)
qed

lemma entry_point_iff:
  "(isMainOrInit (declObj d) \<or> isTopLevelTestFunc p d) =
     ((fnPkgName (declObj d) = ''main'' \<and> fnName (declObj d) = ''main'') \<or>
      (fnName (declObj d) = ''init'' \<and> \<not> fnRecv (declObj d)) \<or>
      (hasSuffix (fset p (declPos d)) ''_test.go'' \<and>
       (\<exists>pre \<in> set [''Test'', ''Benchmark'', ''Fuzz''].
          \<exists>c rest. declName d = pre @ c # rest \<and> c \<in> set upperLetters)))"
  unfolding isMainOrInit_def isTopLevelTestFunc_def topLevelTestFunc_def prefixThenUpper_iff
  by auto

text \<open>
  C2 as stated fails for the assignment form: in
  \<^verbatim>\<open>func h() { r := http.NewRequest(); ctx := context.TODO() }\<close> the provider
  \<^verbatim>\<open>r.Context()\<close> is visible at the request, and the fix still injects a context
  parameter into \<^verbatim>\<open>h\<close> and deletes the assignment.
\<close>

theorem assignment_request_injects_parameter:
  "map path (todos (buildCallGraph onePass [assignFile])) = [assignPath] \<and>
   fst (hasContextProviderInPath assignPath 47) = (''r.Context()'', True) \<and>
   run 1 onePass [assignFile] =
     Inr (Some \<lparr>paramAdded = {3}, contextImported = {0},
       reports =
         [plumbDiag ''Plumb context'' (todoCallExpr 47)
            [editToPrependCtxParam assignDecl,
             \<lparr>tePos = 40, teEnd = 61, teNewText = []\<rparr>]],
       facts = []\<rparr>)"
  by code_simp

lemma resolver_found:
  "firstProvider (searchOrder (rev pth) at) = (expr, True) \<Longrightarrow>
   hasContextProviderInPath pth at = ((expr, True), snd (hasContextProviderInPath pth at))"
  using providerInPath_first [of "rev pth" at]
  by (simp add: hasContextProviderInPath_def prod_eq_iff)

lemma resolver_not_found:
  "snd (fst (hasContextProviderInPath pth at)) = snd (firstProvider (searchOrder (rev pth) at))"
  using providerInPath_first [of "rev pth" at]
  by (simp add: hasContextProviderInPath_def)

lemma through_nothing_injected:
  assumes "snd (fst (hasContextProviderParam (declObj d))) \<or>
      find (\<lambda>q. vName q = ''ctx'') (fnParams (declObj d)) \<noteq> None \<or>
      isMainOrInit (declObj d) \<or> isTopLevelTestFunc p d \<or> declId d \<in> paramAdded st"
  shows "\<exists>es seen st1.
     propagateContextThrough (Suc n) p g (Some d) {} st = Some (es, seen, st1) \<and>
     (\<forall>d'. editToPrependCtxParam d' \<notin> set es) \<and> facts st1 = facts st"
proof (cases "declId d \<in> paramAdded st")
  case True
  then show ?thesis by (simp add: through_guard)
next
  case False
  let ?st1 = "st\<lparr>paramAdded := insert (declId d) (paramAdded st)\<rparr>"
  show ?thesis
  proof (cases "find (\<lambda>q. vName q = ''ctx'') (fnParams (declObj d))")
    case (Some q)
    from through_ctx_param [OF False Some, of n p g] show ?thesis by simp
  next
    case None
    show ?thesis
    proof (cases "isMainOrInit (declObj d) \<or> isTopLevelTestFunc p d")
      case True
      from importEdit_state [of p "declNamePos d" ?st1]
      have "facts (snd (editToImportContext p (declNamePos d) ?st1)) = facts st"
        by (cases "editToImportContext p (declNamePos d) ?st1") simp
      with through_entry [OF False None True] show ?thesis
        by (simp add: varDecl_not_param [symmetric] importEdit_not_param)
    next
      case notEntry: False
      with assms False None have pp: "snd (fst (hasContextProviderParam (declObj d)))"
        by simp
      let ?st2 = "reportAll p (snd (hasContextProviderParam (declObj d))) ?st1"
      from importEdit_state [of p "declNamePos d" ?st2]
      have "facts (snd (editToImportContext p (declNamePos d) ?st2)) = facts st"
        by (cases "editToImportContext p (declNamePos d) ?st2") simp
      with through_provider_param [OF False None notEntry pp] show ?thesis
        by (simp add: varDecl_not_param [symmetric] importEdit_not_param)
    qed
  qed
qed

text \<open>
  C2, as the code has it. The resolver of the code searches the parameters and the
  function-scope objects of the enclosing function literals and of the enclosing
  declaration, and not the scopes of nested blocks (C6). For a bare request with a
  qualifying candidate in that search order, the fix is exactly the replacement of the
  request by the provider expression, and the state of the engine is not touched. For
  a request of the assignment form, for which the resolver is not asked, and for a bare
  request without such a candidate, the fix is the edits of
  \<^verbatim>\<open>propagateContextThrough\<close> on the enclosing declaration followed by the edit at the
  request; these edits hold no parameter insertion, and no fact is exported, when the
  declaration has a qualifying formal parameter, has a parameter named \<^verbatim>\<open>ctx\<close>, is an
  entry point, or was reached before in the pass.
\<close>

theorem visible_provider_is_substituted:
  "(assign todo = None \<and>
    firstProvider (searchOrder (rev (path todo)) (cPos (call todo))) = (expr, True) \<longrightarrow>
      rewriteTODO n p g todo st =
        Some (report p
          (plumbDiag ''Plumb context'' (call todo)
             [\<lparr>tePos = cPos (call todo), teEnd = cEnd (call todo), teNewText = expr\<rparr>])
          (st\<lparr>reports := reports st @ requestDiags todo\<rparr>)))
   \<and>
   (assign todo \<noteq> None \<or>
    \<not> snd (firstProvider (searchOrder (rev (path todo)) (cPos (call todo)))) \<longrightarrow>
      rewriteTODO n p g todo st =
        (case propagateContextThrough n p g (decl (path todo)) {}
                (st\<lparr>reports := reports st @ requestDiags todo\<rparr>) of
           None \<Rightarrow> None
         | Some (es, seen, st1) \<Rightarrow>
             Some (report p
               (plumbDiag ''Plumb context'' (call todo) (es @ [requestEdit todo ''ctx''])) st1)))
   \<and>
   ((assign todo \<noteq> None \<or>
     \<not> snd (firstProvider (searchOrder (rev (path todo)) (cPos (call todo))))) \<and>
    decl (path todo) = Some d \<and>
    (snd (fst (hasContextProviderParam (declObj d))) \<or>
     find (\<lambda>q. vName q = ''ctx'') (fnParams (declObj d)) \<noteq> None \<or>
     isMainOrInit (declObj d) \<or> isTopLevelTestFunc p d \<or> declId d \<in> paramAdded st) \<longrightarrow>
      (\<exists>es st1.
         rewriteTODO (Suc n) p g todo st =
           Some (report p
             (plumbDiag ''Plumb context'' (call todo) (es @ [requestEdit todo ''ctx''])) st1) \<and>
         (\<forall>d'. editToPrependCtxParam d' \<notin> set es) \<and> facts st1 = facts st))"
proof (intro conjI impI)
  assume a: "assign todo = None \<and>
    firstProvider (searchOrder (rev (path todo)) (cPos (call todo))) = (expr, True)"
  from a have d: "requestDiags todo = snd (hasContextProviderInPath (path todo) (cPos (call todo)))"
    by (simp add: requestDiags_def)
  from a rewriteTODO_provider [OF _ resolver_found, of todo expr n p g st]
  show "rewriteTODO n p g todo st =
        Some (report p
          (plumbDiag ''Plumb context'' (call todo)
             [\<lparr>tePos = cPos (call todo), teEnd = cEnd (call todo), teNewText = expr\<rparr>])
          (st\<lparr>reports := reports st @ requestDiags todo\<rparr>))"
    by (simp add: d)
next
  assume "assign todo \<noteq> None \<or>
    \<not> snd (firstProvider (searchOrder (rev (path todo)) (cPos (call todo))))"
  then have "assign todo \<noteq> None \<or>
      \<not> snd (fst (hasContextProviderInPath (path todo) (cPos (call todo))))"
    by (simp add: resolver_not_found)
  then show "rewriteTODO n p g todo st =
        (case propagateContextThrough n p g (decl (path todo)) {}
                (st\<lparr>reports := reports st @ requestDiags todo\<rparr>) of
           None \<Rightarrow> None
         | Some (es, seen, st1) \<Rightarrow>
             Some (report p
               (plumbDiag ''Plumb context'' (call todo) (es @ [requestEdit todo ''ctx''])) st1))"
    by (rule rewriteTODO_through)
next
  let ?st0 = "st\<lparr>reports := reports st @ requestDiags todo\<rparr>"
  assume a: "(assign todo \<noteq> None \<or>
     \<not> snd (firstProvider (searchOrder (rev (path todo)) (cPos (call todo))))) \<and>
    decl (path todo) = Some d \<and>
    (snd (fst (hasContextProviderParam (declObj d))) \<or>
     find (\<lambda>q. vName q = ''ctx'') (fnParams (declObj d)) \<noteq> None \<or>
     isMainOrInit (declObj d) \<or> isTopLevelTestFunc p d \<or> declId d \<in> paramAdded st)"
  then have h: "assign todo \<noteq> None \<or>
      \<not> snd (fst (hasContextProviderInPath (path todo) (cPos (call todo))))"
    by (simp add: resolver_not_found)
  from a have "snd (fst (hasContextProviderParam (declObj d))) \<or>
      find (\<lambda>q. vName q = ''ctx'') (fnParams (declObj d)) \<noteq> None \<or>
      isMainOrInit (declObj d) \<or> isTopLevelTestFunc p d \<or> declId d \<in> paramAdded ?st0"
    by simp
  from through_nothing_injected [OF this, of n g] obtain es seen st1 where
    t: "propagateContextThrough (Suc n) p g (Some d) {} ?st0 = Some (es, seen, st1)"
    and np: "\<forall>d'. editToPrependCtxParam d' \<notin> set es" and f: "facts st1 = facts st"
    by auto
  from a t rewriteTODO_through [OF h, of "Suc n" p g st]
  have "rewriteTODO (Suc n) p g todo st =
           Some (report p
             (plumbDiag ''Plumb context'' (call todo) (es @ [requestEdit todo ''ctx''])) st1)"
    by simp
  with np f show "\<exists>es st1.
         rewriteTODO (Suc n) p g todo st =
           Some (report p
             (plumbDiag ''Plumb context'' (call todo) (es @ [requestEdit todo ''ctx''])) st1) \<and>
         (\<forall>d'. editToPrependCtxParam d' \<notin> set es) \<and> facts st1 = facts st"
    by blast
qed

theorem visible_provider_is_substituted_witness:
  "rewriteTODO 0 onePass emptyGraph namedTodo initialState =
     Some (report onePass
       (plumbDiag ''Plumb context'' (call namedTodo)
          [\<lparr>tePos = cPos (call namedTodo), teEnd = cEnd (call namedTodo),
            teNewText = ''r.Context()''\<rparr>])
       (initialState\<lparr>reports := reports initialState @ requestDiags namedTodo\<rparr>)) \<and>
   rewriteTODO (Suc 0) onePass emptyGraph namedAssignTodo initialState =
     (case propagateContextThrough (Suc 0) onePass emptyGraph (decl (path namedAssignTodo)) {}
             (initialState\<lparr>reports := reports initialState @ requestDiags namedAssignTodo\<rparr>) of
        None \<Rightarrow> None
      | Some (es, seen, st1) \<Rightarrow>
          Some (report onePass
            (plumbDiag ''Plumb context'' (call namedAssignTodo)
               (es @ [requestEdit namedAssignTodo ''ctx''])) st1)) \<and>
   (\<exists>es st1.
      rewriteTODO (Suc 0) onePass emptyGraph namedAssignTodo initialState =
        Some (report onePass
          (plumbDiag ''Plumb context'' (call namedAssignTodo)
             (es @ [requestEdit namedAssignTodo ''ctx''])) st1) \<and>
      (\<forall>d'. editToPrependCtxParam d' \<notin> set es) \<and> facts st1 = facts initialState)"
proof -
  have h1: "assign namedTodo = None \<and>
    firstProvider (searchOrder (rev (path namedTodo)) (cPos (call namedTodo))) =
      (''r.Context()'', True)"
    by code_simp
  have h2: "assign namedAssignTodo \<noteq> None \<or>
    \<not> snd (firstProvider (searchOrder (rev (path namedAssignTodo)) (cPos (call namedAssignTodo))))"
    by code_simp
  have h3: "(assign namedAssignTodo \<noteq> None \<or>
     \<not> snd (firstProvider (searchOrder (rev (path namedAssignTodo)) (cPos (call namedAssignTodo))))) \<and>
    decl (path namedAssignTodo) = Some namedDecl \<and>
    (snd (fst (hasContextProviderParam (declObj namedDecl))) \<or>
     find (\<lambda>q. vName q = ''ctx'') (fnParams (declObj namedDecl)) \<noteq> None \<or>
     isMainOrInit (declObj namedDecl) \<or> isTopLevelTestFunc onePass namedDecl \<or>
     declId namedDecl \<in> paramAdded initialState)"
    by code_simp
  note t = visible_provider_is_substituted [where p = onePass and g = emptyGraph
      and st = initialState]
  from t [where todo = namedTodo and n = 0, THEN conjunct1, rule_format, OF h1]
       t [where todo = namedAssignTodo and n = "Suc 0", THEN conjunct2, THEN conjunct1, rule_format, OF h2]
       t [where todo = namedAssignTodo and n = 0, THEN conjunct2, THEN conjunct2, rule_format, OF h3]
  show ?thesis by (intro conjI)
qed

text \<open>
  C3 as stated fails: for \<^verbatim>\<open>func k(ctx int) { context.TODO() }\<close> the ambiguity
  diagnostic is reported and no parameter is injected, but the request is still
  replaced by \<^verbatim>\<open>ctx\<close>.
\<close>

theorem wrong_ctx_parameter_request_is_rewritten:
  "run 1 onePass [wrongFile] =
     Inr (Some \<lparr>paramAdded = {4}, contextImported = {},
       reports =
         [diagRange 10 60 ''Non-context ctx parameter'',
          plumbDiag ''Plumb context'' (todoCallExpr 35)
            [\<lparr>tePos = 35, teEnd = 49, teNewText = ''ctx''\<rparr>]],
       facts = []\<rparr>)"
  by code_simp

text \<open>
  C3, as the code has it: when the enclosing declaration of a request has a parameter
  named \<^verbatim>\<open>ctx\<close> that is not a \<^verbatim>\<open>context.Context\<close>, is reached for the first time,
  and the request is of the assignment form or has no visible provider, the pass
  reports the ambiguity diagnostic for the declaration, injects nothing, and the fix
  of the request consists of the edit at the request alone (the bare call is replaced
  by \<^verbatim>\<open>ctx\<close>, the assignment is deleted).
\<close>

theorem wrong_ctx_parameter_is_reported:
  assumes "decl (path todo) = Some d"
    and "find (\<lambda>q. vName q = ''ctx'') (fnParams (declObj d)) = Some q"
    and "\<not> isContextContext (vType q)"
    and "declId d \<notin> paramAdded st"
    and "assign todo \<noteq> None \<or>
         \<not> snd (fst (hasContextProviderInPath (path todo) (cPos (call todo))))"
  shows "rewriteTODO (Suc n) p g todo st =
     Some (report p
       (plumbDiag ''Plumb context'' (call todo) [requestEdit todo ''ctx''])
       (st\<lparr>paramAdded := insert (declId d) (paramAdded st),
           reports := reports st @ requestDiags todo
              @ [diagRange (declPos d) (declEnd d) ''Non-context ctx parameter'']\<rparr>))"
proof -
  let ?st0 = "st\<lparr>reports := reports st @ requestDiags todo\<rparr>"
  from assms(4) have "declId d \<notin> paramAdded ?st0" by simp
  from through_ctx_param [OF this, of q n p g] assms(2,3)
  have "propagateContextThrough (Suc n) p g (Some d) {} ?st0 =
     Some ([], {fnId (declObj d)},
       report p (diagRange (declPos d) (declEnd d) ''Non-context ctx parameter'')
         (?st0\<lparr>paramAdded := insert (declId d) (paramAdded ?st0)\<rparr>))"
    by simp
  with assms(1) rewriteTODO_through [OF assms(5), of "Suc n" p g st] show ?thesis
    by (simp add: report_def filterReports_no_fixes diagRange_def)
qed

theorem wrong_ctx_parameter_is_reported_witness:
  "rewriteTODO (Suc 0) onePass emptyGraph wrongTodo initialState =
     Some (report onePass
       (plumbDiag ''Plumb context'' (call wrongTodo) [requestEdit wrongTodo ''ctx''])
       (initialState\<lparr>paramAdded := insert (declId wrongDecl) (paramAdded initialState),
           reports := reports initialState @ requestDiags wrongTodo
              @ [diagRange (declPos wrongDecl) (declEnd wrongDecl) ''Non-context ctx parameter'']\<rparr>))"
proof -
  have h1: "decl (path wrongTodo) = Some wrongDecl" by code_simp
  have h2: "find (\<lambda>q. vName q = ''ctx'') (fnParams (declObj wrongDecl)) =
      Some \<lparr>vName = ''ctx'', vPos = 17, vType = OtherType\<rparr>"
    by code_simp
  have h3: "\<not> isContextContext (vType \<lparr>vName = ''ctx'', vPos = 17, vType = OtherType\<rparr>)"
    by code_simp
  have h4: "declId wrongDecl \<notin> paramAdded initialState" by code_simp
  have h5: "assign wrongTodo \<noteq> None \<or>
      \<not> snd (fst (hasContextProviderInPath (path wrongTodo) (cPos (call wrongTodo))))"
    by code_simp
  from wrong_ctx_parameter_is_reported [OF h1 h2 h3 h4 h5] show ?thesis .
qed

text \<open>
  C4 as stated fails for a second request in the same entry point: in
  \<^verbatim>\<open>func main() { context.TODO(); context.TODO() }\<close> the fix of the first request
  declares the root context, the fix of the second only replaces the request.
\<close>

theorem second_request_declares_nothing:
  "run 1 onePass [mainFile] =
     Inr (Some \<lparr>paramAdded = {5}, contextImported = {0},
       reports =
         [plumbDiag ''Plumb context'' (todoCallExpr 35)
            [editToAddContextVarDecl mainDecl ''context.Background()'',
             \<lparr>tePos = 35, teEnd = 49, teNewText = ''ctx''\<rparr>],
          plumbDiag ''Plumb context'' (todoCallExpr 55)
            [\<lparr>tePos = 55, teEnd = 69, teNewText = ''ctx''\<rparr>]],
       facts = []\<rparr>)"
  by code_simp

text \<open>
  C4, as the code has it: for a request (of the assignment form, or with no provider
  found by the resolver) whose enclosing declaration is an entry point, that is
  \<^verbatim>\<open>main\<close> in package \<^verbatim>\<open>main\<close>, an \<^verbatim>\<open>init\<close> without receiver, or a function in a file
  ending in \<^verbatim>\<open>_test.go\<close> whose name is \<^verbatim>\<open>Test\<close>, \<^verbatim>\<open>Benchmark\<close> or \<^verbatim>\<open>Fuzz\<close> followed by
  an upper-case letter, the fix never holds a parameter insertion and no fact is
  exported. When the declaration is reached for the first time and has no parameter
  named \<^verbatim>\<open>ctx\<close>, the fix starts with the declaration of
  \<^verbatim>\<open>ctx := context.Background()\<close> at the top of the body, followed by the import edits.
  When the declaration was reached before in the pass, or has a parameter named
  \<^verbatim>\<open>ctx\<close>, the fix is the edit at the request alone.
\<close>

theorem entry_point_gets_local_context:
  assumes "decl (path todo) = Some d"
    and "(fnPkgName (declObj d) = ''main'' \<and> fnName (declObj d) = ''main'') \<or>
         (fnName (declObj d) = ''init'' \<and> \<not> fnRecv (declObj d)) \<or>
         (hasSuffix (fset p (declPos d)) ''_test.go'' \<and>
          (\<exists>pre \<in> set [''Test'', ''Benchmark'', ''Fuzz''].
             \<exists>c rest. declName d = pre @ c # rest \<and> c \<in> set upperLetters))"
    and "assign todo \<noteq> None \<or>
         \<not> snd (fst (hasContextProviderInPath (path todo) (cPos (call todo))))"
  shows "\<exists>es st1.
     rewriteTODO (Suc n) p g todo st =
       Some (report p
         (plumbDiag ''Plumb context'' (call todo) (es @ [requestEdit todo ''ctx''])) st1) \<and>
     (\<forall>d'. editToPrependCtxParam d' \<notin> set es) \<and> facts st1 = facts st \<and>
     (declId d \<notin> paramAdded st \<and>
      find (\<lambda>q. vName q = ''ctx'') (fnParams (declObj d)) = None \<longrightarrow>
        es = editToAddContextVarDecl d ''context.Background()''
               # fst (editToImportContext p (declNamePos d)
                   (st\<lparr>paramAdded := insert (declId d) (paramAdded st),
                       reports := reports st @ requestDiags todo\<rparr>))) \<and>
     (declId d \<in> paramAdded st \<or>
      find (\<lambda>q. vName q = ''ctx'') (fnParams (declObj d)) \<noteq> None \<longrightarrow> es = []) \<and>
     (declId d \<in> paramAdded st \<longrightarrow>
        st1 = st\<lparr>reports := reports st @ requestDiags todo\<rparr>)"
proof -
  let ?st0 = "st\<lparr>reports := reports st @ requestDiags todo\<rparr>"
  let ?st1 = "?st0\<lparr>paramAdded := insert (declId d) (paramAdded ?st0)\<rparr>"
  from assms(2) have entry: "isMainOrInit (declObj d) \<or> isTopLevelTestFunc p d"
    by (simp only: entry_point_iff)
  have st1: "?st1 = st\<lparr>paramAdded := insert (declId d) (paramAdded st),
                       reports := reports st @ requestDiags todo\<rparr>"
    by simp
  have "\<exists>es seen st1.
     propagateContextThrough (Suc n) p g (Some d) {} ?st0 = Some (es, seen, st1) \<and>
     (\<forall>d'. editToPrependCtxParam d' \<notin> set es) \<and> facts st1 = facts st \<and>
     (declId d \<notin> paramAdded st \<and>
      find (\<lambda>q. vName q = ''ctx'') (fnParams (declObj d)) = None \<longrightarrow>
        es = editToAddContextVarDecl d ''context.Background()''
               # fst (editToImportContext p (declNamePos d) ?st1)) \<and>
     (declId d \<in> paramAdded st \<or>
      find (\<lambda>q. vName q = ''ctx'') (fnParams (declObj d)) \<noteq> None \<longrightarrow> es = []) \<and>
     (declId d \<in> paramAdded st \<longrightarrow> st1 = ?st0)"
  proof (cases "declId d \<in> paramAdded ?st0")
    case True
    then have "propagateContextThrough (Suc n) p g (Some d) {} ?st0 =
        Some ([], {fnId (declObj d)}, ?st0)"
      by (rule through_guard)
    moreover from True have "declId d \<in> paramAdded st" by simp
    ultimately show ?thesis by simp
  next
    case False
    then have na: "declId d \<notin> paramAdded st" by simp
    show ?thesis
    proof (cases "find (\<lambda>q. vName q = ''ctx'') (fnParams (declObj d))")
      case (Some q)
      from through_ctx_param [OF False Some, of n p g]
      obtain st' where "propagateContextThrough (Suc n) p g (Some d) {} ?st0 =
          Some ([], {fnId (declObj d)}, st')" and "facts st' = facts st"
        by (cases "isContextContext (vType q)") simp_all
      with Some na show ?thesis by simp
    next
      case None
      let ?imp = "editToImportContext p (declNamePos d) ?st1"
      from importEdit_state [of p "declNamePos d" ?st1 "fst ?imp" "snd ?imp"]
      have f: "facts (snd ?imp) = facts st" by simp
      have t: "propagateContextThrough (Suc n) p g (Some d) {} ?st0 =
          Some (editToAddContextVarDecl d ''context.Background()'' # fst ?imp,
                {fnId (declObj d)}, snd ?imp)"
        by (rule through_entry [OF False None entry])
      have np: "\<forall>d'. editToPrependCtxParam d'
          \<notin> set (editToAddContextVarDecl d ''context.Background()'' # fst ?imp)"
        using varDecl_not_param [of d "''context.Background()''"] importEdit_not_param [of _ p "declNamePos d" ?st1]
        by (metis set_ConsD)
      from t np f na None show ?thesis by simp
    qed
  qed
  then obtain es seen st1 where
    t: "propagateContextThrough (Suc n) p g (Some d) {} ?st0 = Some (es, seen, st1)"
    and rest: "(\<forall>d'. editToPrependCtxParam d' \<notin> set es) \<and> facts st1 = facts st \<and>
     (declId d \<notin> paramAdded st \<and>
      find (\<lambda>q. vName q = ''ctx'') (fnParams (declObj d)) = None \<longrightarrow>
        es = editToAddContextVarDecl d ''context.Background()''
               # fst (editToImportContext p (declNamePos d) ?st1)) \<and>
     (declId d \<in> paramAdded st \<or>
      find (\<lambda>q. vName q = ''ctx'') (fnParams (declObj d)) \<noteq> None \<longrightarrow> es = []) \<and>
     (declId d \<in> paramAdded st \<longrightarrow> st1 = ?st0)"
    by blast
  from t assms(1) rewriteTODO_through [OF assms(3), of "Suc n" p g st]
  have "rewriteTODO (Suc n) p g todo st =
       Some (report p
         (plumbDiag ''Plumb context'' (call todo) (es @ [requestEdit todo ''ctx''])) st1)"
    by simp
  with rest show ?thesis unfolding st1 by blast
qed

theorem entry_point_gets_local_context_witness:
  "(\<exists>es st1.
     rewriteTODO (Suc 0) testPass emptyGraph testTodo initialState =
       Some (report testPass
         (plumbDiag ''Plumb context'' (call testTodo) (es @ [requestEdit testTodo ''ctx''])) st1) \<and>
     (\<forall>d'. editToPrependCtxParam d' \<notin> set es) \<and> facts st1 = facts initialState \<and>
     es = editToAddContextVarDecl testDecl ''context.Background()''
               # fst (editToImportContext testPass (declNamePos testDecl)
                   (initialState\<lparr>paramAdded := insert (declId testDecl) (paramAdded initialState),
                       reports := reports initialState @ requestDiags testTodo\<rparr>))) \<and>
   (\<exists>es st1.
     rewriteTODO (Suc 0) testPass emptyGraph testTodo (initialState\<lparr>paramAdded := {7}\<rparr>) =
       Some (report testPass
         (plumbDiag ''Plumb context'' (call testTodo) (es @ [requestEdit testTodo ''ctx''])) st1) \<and>
     (\<forall>d'. editToPrependCtxParam d' \<notin> set es) \<and>
     facts st1 = facts (initialState\<lparr>paramAdded := {7}\<rparr>) \<and>
     es = [] \<and>
     st1 = initialState\<lparr>paramAdded := {7},
             reports := reports (initialState\<lparr>paramAdded := {7}\<rparr>) @ requestDiags testTodo\<rparr>)"
proof -
  have h1: "decl (path testTodo) = Some testDecl" by code_simp
  have s: "hasSuffix (fset testPass (declPos testDecl)) ''_test.go''" by code_simp
  have n: "declName testDecl = ''Test'' @ CHR ''F'' # ''oo''" by code_simp
  have u: "CHR ''F'' \<in> set upperLetters" by code_simp
  from n u have "\<exists>pre \<in> set [''Test'', ''Benchmark'', ''Fuzz''].
      \<exists>c rest. declName testDecl = pre @ c # rest \<and> c \<in> set upperLetters"
    by (intro bexI [of _ "''Test''"] exI [of _ "CHR ''F''"] exI [of _ "''oo''"]) simp_all
  with s have h2: "(fnPkgName (declObj testDecl) = ''main'' \<and> fnName (declObj testDecl) = ''main'') \<or>
         (fnName (declObj testDecl) = ''init'' \<and> \<not> fnRecv (declObj testDecl)) \<or>
         (hasSuffix (fset testPass (declPos testDecl)) ''_test.go'' \<and>
          (\<exists>pre \<in> set [''Test'', ''Benchmark'', ''Fuzz''].
             \<exists>c rest. declName testDecl = pre @ c # rest \<and> c \<in> set upperLetters))"
    by blast
  have h3: "assign testTodo \<noteq> None \<or>
      \<not> snd (fst (hasContextProviderInPath (path testTodo) (cPos (call testTodo))))"
    by code_simp
  have h4: "declId testDecl \<notin> paramAdded initialState \<and>
      find (\<lambda>q. vName q = ''ctx'') (fnParams (declObj testDecl)) = None"
    by code_simp
  have h5: "declId testDecl \<in> paramAdded (initialState\<lparr>paramAdded := {7}\<rparr>)"
    by (simp add: testDecl_def)
  from entry_point_gets_local_context [OF h1 h2 h3, of 0 emptyGraph initialState] h4
  have 1: "\<exists>es st1.
     rewriteTODO (Suc 0) testPass emptyGraph testTodo initialState =
       Some (report testPass
         (plumbDiag ''Plumb context'' (call testTodo) (es @ [requestEdit testTodo ''ctx''])) st1) \<and>
     (\<forall>d'. editToPrependCtxParam d' \<notin> set es) \<and> facts st1 = facts initialState \<and>
     es = editToAddContextVarDecl testDecl ''context.Background()''
               # fst (editToImportContext testPass (declNamePos testDecl)
                   (initialState\<lparr>paramAdded := insert (declId testDecl) (paramAdded initialState),
                       reports := reports initialState @ requestDiags testTodo\<rparr>))"
    by blast
  from entry_point_gets_local_context [OF h1 h2 h3, of 0 emptyGraph
      "initialState\<lparr>paramAdded := {7}\<rparr>"] h5
  have 2: "\<exists>es st1.
     rewriteTODO (Suc 0) testPass emptyGraph testTodo (initialState\<lparr>paramAdded := {7}\<rparr>) =
       Some (report testPass
         (plumbDiag ''Plumb context'' (call testTodo) (es @ [requestEdit testTodo ''ctx''])) st1) \<and>
     (\<forall>d'. editToPrependCtxParam d' \<notin> set es) \<and>
     facts st1 = facts (initialState\<lparr>paramAdded := {7}\<rparr>) \<and>
     es = [] \<and>
     st1 = initialState\<lparr>paramAdded := {7},
             reports := reports (initialState\<lparr>paramAdded := {7}\<rparr>) @ requestDiags testTodo\<rparr>"
    by (elim exE conjE, intro exI conjI) simp_all
  from 1 2 show ?thesis by (rule conjI)
qed

section \<open>Properties of the propagation engine\<close>

lemma through_None:
  "propagateContextThrough (Suc n) p g None seen st = Some ([], seen, st)"
  by (simp add: propagateContextThrough.simps)

lemma through_inject:
  "injects p d seen st \<Longrightarrow>
   propagateContextThrough (Suc n) p g (Some d) seen st =
     (case propagateCallers n p g (callersOf g (fnId (declObj d)))
             (insert (fnId (declObj d)) seen) (snd (injectState p d st)) of
        None \<Rightarrow> None
      | Some (es, seen2, st5) \<Rightarrow>
          Some (editToPrependCtxParam d # fst (injectState p d st) @ es, seen2, st5))"
  unfolding injectState_def Let_def
  by (simp add: propagateContextThrough.simps injects_def Let_def case_prod_beta
      cong: option.case_cong)

text \<open>What the other branches return.\<close>

lemma through_no_inject:
  assumes "\<not> injects p d seen st"
  shows "\<exists>es st'.
     propagateContextThrough (Suc n) p g (Some d) seen st =
       Some (es, (if fnId (declObj d) \<in> seen then seen else insert (fnId (declObj d)) seen), st') \<and>
     (es = [] \<or> (\<exists>c at s. es = editToAddContextVarDecl d c # fst (editToImportContext p at s))) \<and>
     paramAdded st \<subseteq> paramAdded st' \<and> paramAdded st' \<subseteq> insert (declId d) (paramAdded st) \<and>
     (\<exists>ds. list_all (\<lambda>x. dFixes x = []) ds \<and> reports st' = reports st @ ds)"
proof (cases "fnId (declObj d) \<in> seen")
  case True
  then show ?thesis by (auto simp add: propagateContextThrough.simps)
next
  case notSeen: False
  show ?thesis
  proof (cases "declId d \<in> paramAdded st")
    case True
    with notSeen show ?thesis by (auto simp add: propagateContextThrough.simps)
  next
    case notAdded: False
    let ?st1 = "st\<lparr>paramAdded := insert (declId d) (paramAdded st)\<rparr>"
    show ?thesis
    proof (cases "find (\<lambda>q. vName q = ''ctx'') (fnParams (declObj d))")
      case (Some q)
      have "\<exists>ds. list_all (\<lambda>x. dFixes x = []) ds \<and>
          reports (report p (diagRange (declPos d) (declEnd d) ''Non-context ctx parameter'') ?st1)
            = reports st @ ds"
        by (rule exI [of _ "[diagRange (declPos d) (declEnd d) ''Non-context ctx parameter'']"])
           (simp add: report_def filterReports_no_fixes diagRange_def)
      moreover have "\<exists>ds. list_all (\<lambda>x. dFixes x = []) ds \<and> reports ?st1 = reports st @ ds"
        by (rule exI [of _ "[]"]) simp
      ultimately show ?thesis using notSeen notAdded Some
        by (simp add: propagateContextThrough.simps Let_def) blast
    next
      case None
      let ?r = "hasContextProviderParam (declObj d)"
      have nf: "list_all (\<lambda>x. dFixes x = []) (snd ?r)"
        by (simp add: hasContextProviderParam_def providerParamLoop_no_fixes)
      show ?thesis
      proof (cases "isMainOrInit (declObj d) \<or> isTopLevelTestFunc p d")
        case True
        let ?imp = "editToImportContext p (declNamePos d) ?st1"
        from importEdit_state [of p "declNamePos d" ?st1 "fst ?imp" "snd ?imp"]
        have s: "paramAdded (snd ?imp) = insert (declId d) (paramAdded st)"
          "reports (snd ?imp) = reports st @ []" by simp_all
        have t: "propagateContextThrough (Suc n) p g (Some d) seen st =
            Some (editToAddContextVarDecl d ''context.Background()'' # fst ?imp,
              insert (fnId (declObj d)) seen, snd ?imp)"
          using notSeen notAdded None True
          by (simp add: propagateContextThrough.simps Let_def case_prod_beta)
        show ?thesis using notSeen s unfolding t
          by (intro exI conjI) (auto intro: exI [of _ "[]"])
      next
        case notEntry: False
        with assms notSeen notAdded None have ok: "snd (fst ?r)" by (simp add: injects_def)
        let ?st2 = "reportAll p (snd ?r) ?st1"
        let ?imp = "editToImportContext p (declNamePos d) ?st2"
        from importEdit_state [of p "declNamePos d" ?st2 "fst ?imp" "snd ?imp"]
          reportAll_no_fixes [OF nf, of p ?st1]
        have s: "paramAdded (snd ?imp) = insert (declId d) (paramAdded st)"
          "reports (snd ?imp) = reports st @ snd ?r" by simp_all
        have t: "propagateContextThrough (Suc n) p g (Some d) seen st =
            Some (editToAddContextVarDecl d (fst (fst ?r)) # fst ?imp,
              insert (fnId (declObj d)) seen, snd ?imp)"
          using notSeen notAdded None notEntry ok
          by (simp add: propagateContextThrough.simps Let_def case_prod_beta)
        show ?thesis using notSeen s nf unfolding t
          by (intro exI conjI) auto
      qed
    qed
  qed
qed

subsection \<open>Termination\<close>

lemma callersOf_subset:
  "set (callersOf g k) \<subseteq> set (concat (map snd (callers g)))"
proof
  fix c
  assume "c \<in> set (callersOf g k)"
  then obtain cs where m: "map_of (callers g) k = Some cs" and c: "c \<in> set cs"
    by (cases "map_of (callers g) k") (auto simp: callersOf_def)
  from m have "(k, cs) \<in> set (callers g)" by (rule map_of_SomeD)
  with c show "c \<in> set (concat (map snd (callers g)))" by force
qed

lemma declsOf_member:
  "c \<in> set cs \<Longrightarrow> decl (path c) = Some d \<Longrightarrow> d \<in> set (declsOf cs)"
  unfolding declsOf_def by force

lemma callerIds_member:
  "c \<in> set (concat (map snd (callers g))) \<Longrightarrow> decl (path c) = Some d \<Longrightarrow>
   fnId (declObj d) \<in> set (callerIds g)"
  using declsOf_member [of c "concat (map snd (callers g))" d]
  by (simp add: callerIds_def)

lemma forCall_terminates:
  assumes IH: "\<And>dopt seen st.
      card (set (callerIds g) - seen) < n \<Longrightarrow>
      (case dopt of None \<Rightarrow> True | Some d \<Rightarrow> fnId (declObj d) \<in> set (callerIds g)) \<Longrightarrow>
      \<exists>es seen' st'. propagateContextThrough n p g dopt seen st = Some (es, seen', st') \<and> seen \<subseteq> seen'"
    and c: "c \<in> set (concat (map snd (callers g)))"
    and m: "card (set (callerIds g) - seen) < n"
  shows "\<exists>es seen' st'. propagateContextForCall n p g c seen st = Some (es, seen', st') \<and> seen \<subseteq> seen'"
proof (cases "snd (fst (hasContextProviderInPath (path c) (cPos (call c))))")
  case True
  then show ?thesis by (simp add: propagateContextForCall.simps case_prod_beta)
next
  case False
  have "case decl (path c) of None \<Rightarrow> True | Some d \<Rightarrow> fnId (declObj d) \<in> set (callerIds g)"
    using callerIds_member [OF c] by (simp split: option.splits)
  from IH [OF m this] obtain es seen' st' where
    "propagateContextThrough n p g (decl (path c)) seen
       (reportAll p (snd (hasContextProviderInPath (path c) (cPos (call c)))) st) = Some (es, seen', st')"
    and "seen \<subseteq> seen'" by blast
  with False show ?thesis by (simp add: propagateContextForCall.simps case_prod_beta)
qed

lemma callers_terminate:
  assumes IH: "\<And>dopt seen st.
      card (set (callerIds g) - seen) < n \<Longrightarrow>
      (case dopt of None \<Rightarrow> True | Some d \<Rightarrow> fnId (declObj d) \<in> set (callerIds g)) \<Longrightarrow>
      \<exists>es seen' st'. propagateContextThrough n p g dopt seen st = Some (es, seen', st') \<and> seen \<subseteq> seen'"
  shows "set cs \<subseteq> set (concat (map snd (callers g))) \<Longrightarrow>
     card (set (callerIds g) - seen) < n \<Longrightarrow>
     \<exists>es seen' st'. propagateCallers n p g cs seen st = Some (es, seen', st') \<and> seen \<subseteq> seen'"
proof (induction cs arbitrary: seen st)
  case Nil
  show ?case by (simp add: propagateCallers.simps)
next
  case (Cons c cs)
  from Cons.prems have c: "c \<in> set (concat (map snd (callers g)))" by auto
  from forCall_terminates [OF IH c Cons.prems(2)] obtain es1 seen1 st1 where
    f: "propagateContextForCall n p g c seen st = Some (es1, seen1, st1)" and s1: "seen \<subseteq> seen1"
    by blast
  from s1 have "set (callerIds g) - seen1 \<subseteq> set (callerIds g) - seen" by blast
  then have "card (set (callerIds g) - seen1) \<le> card (set (callerIds g) - seen)"
    by (intro card_mono) simp_all
  with Cons.prems(2) have m1: "card (set (callerIds g) - seen1) < n" by simp
  from Cons.prems(1) have "set cs \<subseteq> set (concat (map snd (callers g)))" by auto
  from Cons.IH [OF this m1] obtain es2 seen2 st2 where
    "propagateCallers n p g cs seen1 st1 = Some (es2, seen2, st2)" and "seen1 \<subseteq> seen2"
    by blast
  with f s1 show ?case by (auto simp add: propagateCallers.simps)
qed

lemma through_terminates_inside:
  "card (set (callerIds g) - seen) < fuel \<Longrightarrow>
   (case dopt of None \<Rightarrow> True | Some d \<Rightarrow> fnId (declObj d) \<in> set (callerIds g)) \<Longrightarrow>
   \<exists>es seen' st'. propagateContextThrough fuel p g dopt seen st = Some (es, seen', st') \<and> seen \<subseteq> seen'"
proof (induction fuel arbitrary: dopt seen st)
  case 0
  then show ?case by simp
next
  case (Suc n)
  show ?case
  proof (cases dopt)
    case None
    then show ?thesis by (simp add: through_None)
  next
    case (Some d)
    show ?thesis
    proof (cases "injects p d seen st")
      case False
      from through_no_inject [OF False, of n g] Some show ?thesis by auto
    next
      case True
      let ?seen1 = "insert (fnId (declObj d)) seen"
      from True have "fnId (declObj d) \<notin> seen" by (simp add: injects_def)
      moreover from Suc.prems(2) Some have "fnId (declObj d) \<in> set (callerIds g)" by simp
      ultimately have "set (callerIds g) - ?seen1 \<subset> set (callerIds g) - seen" by blast
      then have "card (set (callerIds g) - ?seen1) < card (set (callerIds g) - seen)"
        by (intro psubset_card_mono) simp_all
      with Suc.prems(1) have m: "card (set (callerIds g) - ?seen1) < n" by simp
      from callers_terminate [where n = n and g = g and p = p, OF Suc.IH callersOf_subset m]
      obtain es seen' st' where
        "propagateCallers n p g (callersOf g (fnId (declObj d))) ?seen1 (snd (injectState p d st))
           = Some (es, seen', st')" and "?seen1 \<subseteq> seen'"
        by blast
      with Some show ?thesis by (auto simp add: through_inject [OF True])
    qed
  qed
qed

lemma through_terminates:
  assumes "walkBound g \<le> fuel"
  shows "\<exists>es seen' st'. propagateContextThrough fuel p g dopt seen st = Some (es, seen', st')"
proof -
  from assms obtain n where fuel: "fuel = Suc n" and n: "length (callerIds g) < n"
    by (cases fuel) (auto simp: walkBound_def)
  show ?thesis
  proof (cases dopt)
    case None
    then show ?thesis by (simp add: fuel through_None)
  next
    case (Some d)
    show ?thesis
    proof (cases "injects p d seen st")
      case False
      from through_no_inject [OF False, of n g] Some fuel show ?thesis by auto
    next
      case True
      let ?seen1 = "insert (fnId (declObj d)) seen"
      have "card (set (callerIds g) - ?seen1) \<le> card (set (callerIds g))"
        by (intro card_mono) auto
      also have "\<dots> \<le> length (callerIds g)" by (rule card_length)
      finally have m: "card (set (callerIds g) - ?seen1) < n" using n by simp
      from callers_terminate [where n = n and g = g and p = p,
          OF through_terminates_inside callersOf_subset m]
      obtain es seen' st' where
        "propagateCallers n p g (callersOf g (fnId (declObj d))) ?seen1 (snd (injectState p d st))
           = Some (es, seen', st')"
        by blast
      with Some fuel show ?thesis by (simp add: through_inject [OF True])
    qed
  qed
qed

lemma forCall_terminates_top:
  assumes "walkBound g \<le> fuel"
  shows "\<exists>es seen' st'. propagateContextForCall fuel p g c seen st = Some (es, seen', st')"
proof (cases "snd (fst (hasContextProviderInPath (path c) (cPos (call c))))")
  case True
  then show ?thesis by (simp add: propagateContextForCall.simps case_prod_beta)
next
  case False
  from through_terminates [OF assms] obtain es seen' st' where
    "propagateContextThrough fuel p g (decl (path c)) seen
       (reportAll p (snd (hasContextProviderInPath (path c) (cPos (call c)))) st) = Some (es, seen', st')"
    by blast
  with False show ?thesis by (simp add: propagateContextForCall.simps case_prod_beta)
qed

lemma rewriteTODO_terminates:
  assumes "walkBound g \<le> fuel"
  shows "\<exists>st'. rewriteTODO fuel p g todo st = Some st'"
proof -
  from through_terminates [OF assms] obtain es seen' st' where
    "propagateContextThrough fuel p g (decl (path todo)) {} st = Some (es, seen', st')"
    by blast
  moreover from through_terminates [OF assms] obtain es2 seen2 st2 where
    "propagateContextThrough fuel p g (decl (path todo)) {}
       (reportAll p (snd (hasContextProviderInPath (path todo) (cPos (call todo)))) st)
       = Some (es2, seen2, st2)"
    by blast
  ultimately show ?thesis
    by (simp add: rewriteTODO_def case_prod_beta split: option.splits)
qed

lemma rewriteTransitives_terminates:
  assumes "walkBound g \<le> fuel"
  shows "\<exists>st'. rewriteTransitives fuel p g c st = Some st'"
  using forCall_terminates_top [OF assms, of p c "{}" st]
  by (auto simp: rewriteTransitives_def)

lemma todosLoop_terminates:
  "walkBound g \<le> fuel \<Longrightarrow> \<exists>st'. todosLoop fuel p g cs st = Some st'"
proof (induction cs arbitrary: st)
  case Nil
  show ?case by simp
next
  case (Cons c cs)
  from rewriteTODO_terminates [OF Cons.prems] obtain st1 where
    "rewriteTODO fuel p g c st = Some st1" by blast
  with Cons.IH [OF Cons.prems, of st1] show ?case by simp
qed

lemma transitivesLoop_terminates:
  "walkBound g \<le> fuel \<Longrightarrow> \<exists>st'. transitivesLoop fuel p g cs st = Some st'"
proof (induction cs arbitrary: st)
  case Nil
  show ?case by simp
next
  case (Cons c cs)
  from rewriteTransitives_terminates [OF Cons.prems] obtain st1 where
    "rewriteTransitives fuel p g c st = Some st1" by blast
  with Cons.IH [OF Cons.prems, of st1] show ?case by simp
qed

lemma buildDiagnostics_terminates:
  assumes "walkBound g \<le> fuel"
  shows "\<exists>st'. buildDiagnostics fuel p g st = Some st'"
proof -
  from todosLoop_terminates [OF assms] obtain st1 where
    "todosLoop fuel p g (todos g) st = Some st1" by blast
  with transitivesLoop_terminates [OF assms, of p "transitives g" st1] show ?thesis
    by (simp add: buildDiagnostics_def)
qed

subsection \<open>An induction rule for the results of the engine\<close>

lemma callersOf_graphCalls: "set (callersOf g k) \<subseteq> set (graphCalls g)"
  using callersOf_subset [of g k] by (auto simp: graphCalls_def)

lemma graphDecls_member:
  "c \<in> set (graphCalls g) \<Longrightarrow> decl (path c) = Some d \<Longrightarrow> d \<in> set (graphDecls g)"
  by (simp add: graphDecls_def declsOf_member)

lemma engine_induct_through:
  fixes PT :: "funcDecl option \<Rightarrow> nat set \<Rightarrow> diagState \<Rightarrow> textEdit list \<Rightarrow> nat set \<Rightarrow> diagState \<Rightarrow> bool"
    and PC :: "localCall list \<Rightarrow> nat set \<Rightarrow> diagState \<Rightarrow> textEdit list \<Rightarrow> nat set \<Rightarrow> diagState \<Rightarrow> bool"
  assumes tNone: "\<And>seen st. PT None seen st [] seen st"
    and tLeaf: "\<And>d seen st es st'.
        d \<in> set (graphDecls g) \<Longrightarrow> \<not> injects p d seen st \<Longrightarrow>
        es = [] \<or> (\<exists>c at s. es = editToAddContextVarDecl d c # fst (editToImportContext p at s)) \<Longrightarrow>
        paramAdded st \<subseteq> paramAdded st' \<Longrightarrow>
        paramAdded st' \<subseteq> insert (declId d) (paramAdded st) \<Longrightarrow>
        \<exists>ds. list_all (\<lambda>x. dFixes x = []) ds \<and> reports st' = reports st @ ds \<Longrightarrow>
        PT (Some d) seen st es
          (if fnId (declObj d) \<in> seen then seen else insert (fnId (declObj d)) seen) st'"
    and tInj: "\<And>d seen st es seen' st'.
        d \<in> set (graphDecls g) \<Longrightarrow> injects p d seen st \<Longrightarrow>
        PC (callersOf g (fnId (declObj d))) (insert (fnId (declObj d)) seen)
           (snd (injectState p d st)) es seen' st' \<Longrightarrow>
        PT (Some d) seen st (editToPrependCtxParam d # fst (injectState p d st) @ es) seen' st'"
    and fFound: "\<And>c seen st.
        c \<in> set (graphCalls g) \<Longrightarrow>
        snd (fst (hasContextProviderInPath (path c) (cPos (call c)))) \<Longrightarrow>
        PF c seen st
          [editToPrependExpr (call c) (fst (fst (hasContextProviderInPath (path c) (cPos (call c)))))]
          seen (reportAll p (snd (hasContextProviderInPath (path c) (cPos (call c)))) st)"
    and fThrough: "\<And>c seen st es seen' st'.
        c \<in> set (graphCalls g) \<Longrightarrow>
        \<not> snd (fst (hasContextProviderInPath (path c) (cPos (call c)))) \<Longrightarrow>
        PT (decl (path c)) seen
           (reportAll p (snd (hasContextProviderInPath (path c) (cPos (call c)))) st) es seen' st' \<Longrightarrow>
        PF c seen st (es @ [editToPrependExpr (call c) ''ctx'']) seen' st'"
    and cNil: "\<And>seen st. PC [] seen st [] seen st"
    and cCons: "\<And>c cs seen st es1 seen1 st1 es2 seen2 st2.
        c \<in> set (graphCalls g) \<Longrightarrow> set cs \<subseteq> set (graphCalls g) \<Longrightarrow>
        PF c seen st es1 seen1 st1 \<Longrightarrow> PC cs seen1 st1 es2 seen2 st2 \<Longrightarrow>
        PC (c # cs) seen st (es1 @ es2) seen2 st2"
  shows "propagateContextThrough fuel p g dopt seen st = Some (es, seen', st') \<Longrightarrow>
         (case dopt of None \<Rightarrow> True | Some d \<Rightarrow> d \<in> set (graphDecls g)) \<Longrightarrow>
         PT dopt seen st es seen' st'"
proof (induction fuel arbitrary: dopt seen st es seen' st')
  case 0
  then show ?case by (simp add: propagateContextThrough.simps)
next
  case (Suc n)
  have F: "PF c seen st es seen' st'"
    if "propagateContextForCall n p g c seen st = Some (es, seen', st')"
      and "c \<in> set (graphCalls g)" for c seen st es seen' st'
  proof (cases "snd (fst (hasContextProviderInPath (path c) (cPos (call c))))")
    case True
    with that(1) have "es = [editToPrependExpr (call c)
          (fst (fst (hasContextProviderInPath (path c) (cPos (call c)))))]"
      "seen' = seen" "st' = reportAll p (snd (hasContextProviderInPath (path c) (cPos (call c)))) st"
      by (simp_all add: propagateContextForCall.simps case_prod_beta)
    with fFound [OF that(2) True] show ?thesis by simp
  next
    case False
    with that(1) obtain es0 where
      t: "propagateContextThrough n p g (decl (path c)) seen
           (reportAll p (snd (hasContextProviderInPath (path c) (cPos (call c)))) st)
          = Some (es0, seen', st')"
      and es: "es = es0 @ [editToPrependExpr (call c) ''ctx'']"
      by (auto simp add: propagateContextForCall.simps case_prod_beta split: option.splits)
    have "case decl (path c) of None \<Rightarrow> True | Some d \<Rightarrow> d \<in> set (graphDecls g)"
      using graphDecls_member [OF that(2)] by (simp split: option.splits)
    from Suc.IH [OF t this] fThrough [OF that(2) False] es show ?thesis by simp
  qed
  have C: "PC cs seen st es seen' st'"
    if "propagateCallers n p g cs seen st = Some (es, seen', st')"
      and "set cs \<subseteq> set (graphCalls g)" for cs seen st es seen' st'
    using that
  proof (induction cs arbitrary: seen st es seen' st')
    case Nil
    then show ?case using cNil by (simp add: propagateCallers.simps)
  next
    case (Cons c cs)
    from Cons.prems(1) obtain es1 seen1 st1 es2 where
      f: "propagateContextForCall n p g c seen st = Some (es1, seen1, st1)"
      and r: "propagateCallers n p g cs seen1 st1 = Some (es2, seen', st')"
      and es: "es = es1 @ es2"
      by (auto simp add: propagateCallers.simps split: option.splits)
    from Cons.prems(2) have c: "c \<in> set (graphCalls g)" and cs: "set cs \<subseteq> set (graphCalls g)"
      by auto
    from cCons [OF c cs F [OF f c] Cons.IH [OF r cs]] es show ?case by simp
  qed
  show ?case
  proof (cases dopt)
    case None
    with Suc.prems(1) tNone show ?thesis by (simp add: through_None)
  next
    case (Some d)
    with Suc.prems(2) have d: "d \<in> set (graphDecls g)" by simp
    show ?thesis
    proof (cases "injects p d seen st")
      case False
      from through_no_inject [OF False, of n g] Suc.prems(1) Some
      have "es = [] \<or> (\<exists>c at s. es = editToAddContextVarDecl d c # fst (editToImportContext p at s))"
        "paramAdded st \<subseteq> paramAdded st'" "paramAdded st' \<subseteq> insert (declId d) (paramAdded st)"
        "\<exists>ds. list_all (\<lambda>x. dFixes x = []) ds \<and> reports st' = reports st @ ds"
        "seen' = (if fnId (declObj d) \<in> seen then seen else insert (fnId (declObj d)) seen)"
        by auto
      with tLeaf [OF d False, of es st'] Some show ?thesis by simp
    next
      case True
      from Suc.prems(1) Some obtain es0 where
        r: "propagateCallers n p g (callersOf g (fnId (declObj d)))
              (insert (fnId (declObj d)) seen) (snd (injectState p d st)) = Some (es0, seen', st')"
        and es: "es = editToPrependCtxParam d # fst (injectState p d st) @ es0"
        by (auto simp add: through_inject [OF True] split: option.splits)
      from tInj [OF d True C [OF r callersOf_graphCalls]] es Some show ?thesis by simp
    qed
  qed
qed

subsection \<open>What the engine does to the state, and the width of its edits\<close>

lemma injectState_props:
  "paramAdded (snd (injectState p d st)) = insert (declId d) (paramAdded st)"
  "\<exists>ds. list_all (\<lambda>x. dFixes x = []) ds \<and> reports (snd (injectState p d st)) = reports st @ ds"
  "list_all (\<lambda>e. teNewText e \<noteq> ''ctx context.Context, '' \<and> tePos e = teEnd e)
     (fst (injectState p d st))"
proof -
  let ?r = "hasContextProviderParam (declObj d)"
  let ?st2 = "reportAll p (snd ?r) (st\<lparr>paramAdded := insert (declId d) (paramAdded st)\<rparr>)"
  let ?st3 = "if fnExported (declObj d) then ?st2\<lparr>facts := facts ?st2 @ [fnId (declObj d)]\<rparr> else ?st2"
  have i: "injectState p d st = editToImportContext p (declNamePos d) ?st3"
    by (simp add: injectState_def Let_def)
  have nf: "list_all (\<lambda>x. dFixes x = []) (snd ?r)"
    by (simp add: hasContextProviderParam_def providerParamLoop_no_fixes)
  from reportAll_no_fixes [OF nf, of p "st\<lparr>paramAdded := insert (declId d) (paramAdded st)\<rparr>"]
  have r3: "reports ?st3 = reports st @ snd ?r" "paramAdded ?st3 = insert (declId d) (paramAdded st)"
    by simp_all
  obtain es st' where e: "editToImportContext p (declNamePos d) ?st3 = (es, st')"
    by (cases "editToImportContext p (declNamePos d) ?st3")
  from importEdit_state [OF e] r3 show
    "paramAdded (snd (injectState p d st)) = insert (declId d) (paramAdded st)"
    by (simp add: i e)
  from importEdit_state [OF e] r3 nf show
    "\<exists>ds. list_all (\<lambda>x. dFixes x = []) ds \<and> reports (snd (injectState p d st)) = reports st @ ds"
    by (auto simp add: i e)
  from importEdit_text [OF e] show
    "list_all (\<lambda>e. teNewText e \<noteq> ''ctx context.Context, '' \<and> tePos e = teEnd e)
       (fst (injectState p d st))"
    by (simp add: i e)
qed

lemma importEdit_width:
  "list_all (\<lambda>e. tePos e = teEnd e) (fst (editToImportContext p at s))"
proof -
  obtain es st' where e: "editToImportContext p at s = (es, st')"
    by (cases "editToImportContext p at s")
  from importEdit_text [OF e] show ?thesis by (simp add: e list_all_iff)
qed

lemma reportAll_path_reports:
  "\<exists>ds. list_all (\<lambda>x. dFixes x = []) ds \<and>
     reports (reportAll p (snd (hasContextProviderInPath pth at)) st) = reports st @ ds"
  using reportAll_no_fixes [OF hasContextProviderInPath_no_fixes, of p pth at st]
    hasContextProviderInPath_no_fixes [of pth at]
  by auto

lemma engineKeeps_trans:
  "engineKeeps seen st es1 seen1 st1 \<Longrightarrow> engineKeeps seen1 st1 es2 seen2 st2 \<Longrightarrow>
   engineKeeps seen st (es1 @ es2) seen2 st2"
  unfolding engineKeeps_def
  by (elim conjE exE, intro conjI) (auto intro: exI [of _ "_ @ _"])

lemma through_keeps:
  assumes "propagateContextThrough fuel p g dopt seen st = Some (es, seen', st')"
    and "case dopt of None \<Rightarrow> True | Some d \<Rightarrow> d \<in> set (graphDecls g)"
  shows "engineKeeps seen st es seen' st'"
proof (rule engine_induct_through
    [where PT = "\<lambda>dopt. engineKeeps" and PF = "\<lambda>c. engineKeeps" and PC = "\<lambda>cs. engineKeeps",
     OF _ _ _ _ _ _ _ assms])
  show "engineKeeps seen st [] seen st" for seen st
    by (simp add: engineKeeps_def)
next
  fix d seen es and st st' :: diagState
  assume "es = [] \<or> (\<exists>c at s. es = editToAddContextVarDecl d c # fst (editToImportContext p at s))"
    and "paramAdded st \<subseteq> paramAdded st'"
    and "\<exists>ds. list_all (\<lambda>x. dFixes x = []) ds \<and> reports st' = reports st @ ds"
  then show "engineKeeps seen st es
      (if fnId (declObj d) \<in> seen then seen else insert (fnId (declObj d)) seen) st'"
    using importEdit_width
    by (auto simp add: engineKeeps_def editToAddContextVarDecl_def)
next
  fix d seen st es seen' st'
  assume k1: "engineKeeps (insert (fnId (declObj d)) seen) (snd (injectState p d st)) es seen' st'"
  have k0: "engineKeeps seen st (editToPrependCtxParam d # fst (injectState p d st))
      (insert (fnId (declObj d)) seen) (snd (injectState p d st))"
    using injectState_props [of p d st]
    by (auto simp add: engineKeeps_def editToPrependCtxParam_def list_all_iff)
  from engineKeeps_trans [OF k0 k1]
  show "engineKeeps seen st (editToPrependCtxParam d # fst (injectState p d st) @ es)
      seen' st'"
    by simp
next
  fix c seen st
  show "engineKeeps seen st
      [editToPrependExpr (call c) (fst (fst (hasContextProviderInPath (path c) (cPos (call c)))))]
      seen (reportAll p (snd (hasContextProviderInPath (path c) (cPos (call c)))) st)"
    using reportAll_path_reports [of p "path c" "cPos (call c)" st]
    by (simp add: engineKeeps_def editToPrependExpr_def)
next
  fix c seen st es seen' st'
  assume k1: "engineKeeps seen
      (reportAll p (snd (hasContextProviderInPath (path c) (cPos (call c)))) st) es seen' st'"
  have k0: "engineKeeps seen st [] seen
      (reportAll p (snd (hasContextProviderInPath (path c) (cPos (call c)))) st)"
    using reportAll_path_reports [of p "path c" "cPos (call c)" st]
    by (simp add: engineKeeps_def)
  have k2: "engineKeeps seen' st' [editToPrependExpr (call c) ''ctx''] seen' st'"
    by (simp add: engineKeeps_def editToPrependExpr_def)
  from engineKeeps_trans [OF engineKeeps_trans [OF k0 k1] k2]
  show "engineKeeps seen st (es @ [editToPrependExpr (call c) ''ctx'']) seen' st'"
    by simp
next
  show "engineKeeps seen st [] seen st" for seen st
    by (simp add: engineKeeps_def)
next
  fix seen st es1 seen1 st1 es2 seen2 st2
  assume "engineKeeps seen st es1 seen1 st1" "engineKeeps seen1 st1 es2 seen2 st2"
  then show "engineKeeps seen st (es1 @ es2) seen2 st2" by (rule engineKeeps_trans)
qed

subsection \<open>At most one parameter per declaration\<close>

lemma injectedOnce_refl: "injectedOnce d st [] st"
  by (simp add: injectedOnce_def)

lemma injectedOnce_trans:
  "injectedOnce d st es1 st1 \<Longrightarrow> injectedOnce d st1 es2 st2 \<Longrightarrow>
   injectedOnce d st (es1 @ es2) st2"
  unfolding injectedOnce_def by (auto split: if_splits)

lemma injectedOnce_same:
  "paramAdded st' = paramAdded st \<Longrightarrow> count_list es (editToPrependCtxParam d) = 0 \<Longrightarrow>
   injectedOnce d st es st'"
  by (simp add: injectedOnce_def)

lemma count_list_0: "x \<notin> set xs \<Longrightarrow> count_list xs x = 0"
  by (induction xs) auto

lemma wf_decl:
  assumes "wfPositions g" and "d \<in> set (graphDecls g)" and "d' \<in> set (graphDecls g)"
    and "editToPrependCtxParam d = editToPrependCtxParam d'"
  shows "declId d = declId d'"
proof -
  from assms(4) have o: "declParamsOpening d = declParamsOpening d'"
    by (simp add: editToPrependCtxParam_def)
  from assms(1-3) have
    "if declParamsOpening d = declParamsOpening d' then declId d = declId d' else True"
    unfolding wfPositions_def list_all_iff by blast
  with o show ?thesis by simp
qed

lemma wf_call:
  "wfPositions g \<Longrightarrow> c \<in> set (graphCalls g) \<Longrightarrow> d \<in> set (graphDecls g) \<Longrightarrow>
   editToPrependExpr (call c) v \<noteq> editToPrependCtxParam d"
  by (auto simp: wfPositions_def list_all_iff editToPrependCtxParam_def editToPrependExpr_def)

lemma wf_request:
  "wfPositions g \<Longrightarrow> c \<in> set (graphCalls g) \<Longrightarrow>
   requestEdit c x \<noteq> editToPrependCtxParam d \<and>
   \<lparr>tePos = cPos (call c), teEnd = cEnd (call c), teNewText = x\<rparr> \<noteq> editToPrependCtxParam d"
  by (auto simp: wfPositions_def list_all_iff editToPrependCtxParam_def requestEdit_def
      split: option.splits)

lemma no_param_text_count:
  "list_all (\<lambda>e. teNewText e \<noteq> ''ctx context.Context, '') es \<Longrightarrow>
   count_list es (editToPrependCtxParam d) = 0"
  by (rule count_list_0) (auto simp: list_all_iff editToPrependCtxParam_def)

lemma through_once:
  assumes wf: "wfPositions g" and d: "d0 \<in> set (graphDecls g)"
    and "propagateContextThrough fuel p g dopt seen st = Some (es, seen', st')"
    and "case dopt of None \<Rightarrow> True | Some d \<Rightarrow> d \<in> set (graphDecls g)"
  shows "injectedOnce d0 st es st'"
proof (rule engine_induct_through
    [where PT = "\<lambda>dopt seen st es seen' st'. injectedOnce d0 st es st'"
       and PF = "\<lambda>c seen st es seen' st'. injectedOnce d0 st es st'"
       and PC = "\<lambda>cs seen st es seen' st'. injectedOnce d0 st es st'",
     OF _ _ _ _ _ _ _ assms(3,4)])
  show "injectedOnce d0 st [] st" for st by (rule injectedOnce_refl)
next
  fix d es and st st' :: diagState
  assume "es = [] \<or> (\<exists>c at s. es = editToAddContextVarDecl d c # fst (editToImportContext p at s))"
    and "paramAdded st \<subseteq> paramAdded st'"
  then show "injectedOnce d0 st es st'"
    using varDecl_not_param [of d _ d0] importEdit_not_param [of d0 p]
    by (auto simp add: injectedOnce_def count_list_0)
next
  fix d seen st es st'
  assume dm: "d \<in> set (graphDecls g)" and inj: "injects p d seen st"
    and k: "injectedOnce d0 (snd (injectState p d st)) es st'"
  from inj have fresh: "declId d \<notin> paramAdded st" by (simp add: injects_def)
  have pa: "paramAdded (snd (injectState p d st)) = insert (declId d) (paramAdded st)"
    by (rule injectState_props)
  have imp0: "count_list (fst (injectState p d st)) (editToPrependCtxParam d0) = 0"
    using injectState_props(3) [of p d st]
    by (intro no_param_text_count) (simp add: list_all_iff)
  show "injectedOnce d0 st (editToPrependCtxParam d # fst (injectState p d st) @ es) st'"
  proof (cases "editToPrependCtxParam d = editToPrependCtxParam d0")
    case True
    from wf_decl [OF wf dm d True] have "declId d = declId d0" .
    with k pa fresh imp0 True show ?thesis
      by (auto simp add: injectedOnce_def split: if_splits)
  next
    case False
    with k pa imp0 show ?thesis
      by (auto simp add: injectedOnce_def split: if_splits)
  qed
next
  fix c st
  assume "c \<in> set (graphCalls g)"
  from wf_call [OF wf this d]
  show "injectedOnce d0 st
      [editToPrependExpr (call c) (fst (fst (hasContextProviderInPath (path c) (cPos (call c)))))]
      (reportAll p (snd (hasContextProviderInPath (path c) (cPos (call c)))) st)"
    by (simp add: injectedOnce_def)
next
  fix c st es st'
  assume c: "c \<in> set (graphCalls g)"
    and k: "injectedOnce d0
      (reportAll p (snd (hasContextProviderInPath (path c) (cPos (call c)))) st) es st'"
  from wf_call [OF wf c d, of "''ctx''"] k
  show "injectedOnce d0 st (es @ [editToPrependExpr (call c) ''ctx'']) st'"
    by (simp add: injectedOnce_def)
next
  show "injectedOnce d0 st [] st" for st by (rule injectedOnce_refl)
next
  fix st es1 st1 es2 st2
  assume "injectedOnce d0 st es1 st1" "injectedOnce d0 st1 es2 st2"
  then show "injectedOnce d0 st (es1 @ es2) st2" by (rule injectedOnce_trans)
qed

lemma allEdits_append [simp]: "allEdits (xs @ ys) = allEdits xs @ allEdits ys"
  by (simp add: allEdits_def)

lemma allEdits_Nil [simp]: "allEdits [] = []"
  by (simp add: allEdits_def)

lemma allEdits_no_fixes: "list_all (\<lambda>x. dFixes x = []) ds \<Longrightarrow> allEdits ds = []"
  by (induction ds) (simp_all add: allEdits_def)

lemma allEdits_plumbDiag [simp]: "allEdits [plumbDiag m c es] = es"
  by (simp add: allEdits_def plumbDiag_def)

lemma report_plumbDiag_edits:
  "allEdits (reports (report p (plumbDiag m c es) st)) = allEdits (reports st) \<or>
   allEdits (reports (report p (plumbDiag m c es) st)) = allEdits (reports st) @ es"
  by (simp add: report_def filterReports_def)

lemma todos_graphCalls: "c \<in> set (todos g) \<Longrightarrow> c \<in> set (graphCalls g)"
  by (simp add: graphCalls_def)

lemma transitives_graphCalls: "c \<in> set (transitives g) \<Longrightarrow> c \<in> set (graphCalls g)"
  by (simp add: graphCalls_def)

lemma decl_graphDecls:
  "c \<in> set (graphCalls g) \<Longrightarrow>
   case decl (path c) of None \<Rightarrow> True | Some d \<Rightarrow> d \<in> set (graphDecls g)"
  using graphDecls_member [of c g] by (simp split: option.splits)

text \<open>The two ways in which \<^verbatim>\<open>rewriteTODO\<close> returns.\<close>

lemma rewriteTODO_cases:
  assumes "rewriteTODO fuel p g todo st = Some st'"
  obtains (found) expr ds where
      "assign todo = None"
      "list_all (\<lambda>x. dFixes x = []) ds"
      "st' = report p (plumbDiag ''Plumb context'' (call todo)
               [\<lparr>tePos = cPos (call todo), teEnd = cEnd (call todo), teNewText = expr\<rparr>])
               (st\<lparr>reports := reports st @ ds\<rparr>)"
    | (through) es seen st1 where
      "propagateContextThrough fuel p g (decl (path todo)) {}
         (st\<lparr>reports := reports st @ requestDiags todo\<rparr>) = Some (es, seen, st1)"
      "st' = report p (plumbDiag ''Plumb context'' (call todo) (es @ [requestEdit todo ''ctx''])) st1"
proof (cases "assign todo \<noteq> None \<or>
    \<not> snd (fst (hasContextProviderInPath (path todo) (cPos (call todo))))")
  case True
  from assms rewriteTODO_through [OF True, of fuel p g st] show ?thesis
    by (auto split: option.splits intro: through)
next
  case False
  let ?r = "hasContextProviderInPath (path todo) (cPos (call todo))"
  from False have a: "assign todo = None" and "snd (fst ?r)" by simp_all
  then have "?r = ((fst (fst ?r), True), snd ?r)" by (metis prod.collapse)
  from rewriteTODO_provider [OF a this, of fuel p g st] assms
    hasContextProviderInPath_no_fixes [of "path todo" "cPos (call todo)"] a
  show ?thesis by (auto intro: found)
qed

lemma rewriteTODO_once:
  assumes wf: "wfPositions g" and d: "d0 \<in> set (graphDecls g)"
    and c: "todo \<in> set (todos g)"
    and inv: "onceInv d0 st"
    and r: "rewriteTODO fuel p g todo st = Some st'"
  shows "onceInv d0 st'"
  using r
proof (cases rule: rewriteTODO_cases)
  case (found expr ds)
  let ?e = "\<lparr>tePos = cPos (call todo), teEnd = cEnd (call todo), teNewText = expr\<rparr>"
  from wf_request [OF wf todos_graphCalls [OF c], of expr d0]
  have ne: "?e \<noteq> editToPrependCtxParam d0" by simp
  from report_plumbDiag_edits [of p "''Plumb context''" "call todo" "[?e]"
      "st\<lparr>reports := reports st @ ds\<rparr>"] found inv ne
  show ?thesis
    by (auto simp add: onceInv_def allEdits_no_fixes)
next
  case (through es seen st1)
  let ?st0 = "st\<lparr>reports := reports st @ requestDiags todo\<rparr>"
  from through_once [OF wf d through(1) decl_graphDecls [OF todos_graphCalls [OF c]]]
  have o: "injectedOnce d0 ?st0 es st1" .
  from through_keeps [OF through(1) decl_graphDecls [OF todos_graphCalls [OF c]]]
  obtain ds where "list_all (\<lambda>x. dFixes x = []) ds" "reports st1 = reports ?st0 @ ds"
    by (auto simp: engineKeeps_def)
  then have e1: "allEdits (reports st1) = allEdits (reports st)"
    by (simp add: allEdits_no_fixes requestDiags_no_fixes)
  from wf_request [OF wf todos_graphCalls [OF c], of "''ctx''" d0]
  have ne: "requestEdit todo ''ctx'' \<noteq> editToPrependCtxParam d0" by simp
  from report_plumbDiag_edits [of p "''Plumb context''" "call todo"
      "es @ [requestEdit todo ''ctx'']" st1] through(2) inv o e1 ne
  show ?thesis
    by (auto simp add: onceInv_def injectedOnce_def split: if_splits)
qed

lemma rewriteTransitives_once:
  assumes wf: "wfPositions g" and d: "d0 \<in> set (graphDecls g)"
    and c: "todo \<in> set (transitives g)"
    and inv: "onceInv d0 st"
    and r: "rewriteTransitives fuel p g todo st = Some st'"
  shows "onceInv d0 st'"
proof -
  let ?r = "hasContextProviderInPath (path todo) (cPos (call todo))"
  let ?st0 = "reportAll p (snd ?r) st"
  note cm = transitives_graphCalls [OF c]
  from reportAll_path_reports [of p "path todo" "cPos (call todo)" st]
  have e0: "allEdits (reports ?st0) = allEdits (reports st)"
    by (auto simp add: allEdits_no_fixes)
  from r obtain es seen st1 where
    f: "propagateContextForCall fuel p g todo {} st = Some (es, seen, st1)"
    and st': "st' = report p (plumbDiag ''Continue plumbing context'' (call todo) es) st1"
    by (auto simp: rewriteTransitives_def split: option.splits)
  have "injectedOnce d0 ?st0 es st1 \<and> allEdits (reports st1) = allEdits (reports ?st0)"
  proof (cases "snd (fst ?r)")
    case True
    with f have "es = [editToPrependExpr (call todo) (fst (fst ?r))]" "st1 = ?st0"
      by (simp_all add: propagateContextForCall.simps case_prod_beta)
    with wf_call [OF wf cm d] show ?thesis by (simp add: injectedOnce_def)
  next
    case False
    with f obtain es0 where
      t: "propagateContextThrough fuel p g (decl (path todo)) {} ?st0 = Some (es0, seen, st1)"
      and es: "es = es0 @ [editToPrependExpr (call todo) ''ctx'']"
      by (auto simp add: propagateContextForCall.simps case_prod_beta split: option.splits)
    from through_once [OF wf d t decl_graphDecls [OF cm]] wf_call [OF wf cm d, of "''ctx''"] es
    have "injectedOnce d0 ?st0 es st1" by (simp add: injectedOnce_def)
    moreover from through_keeps [OF t decl_graphDecls [OF cm]]
    have "allEdits (reports st1) = allEdits (reports ?st0)"
      by (auto simp: engineKeeps_def allEdits_no_fixes)
    ultimately show ?thesis by simp
  qed
  with report_plumbDiag_edits [of p "''Continue plumbing context''" "call todo" es st1]
    st' inv e0
  show ?thesis
    by (auto simp add: onceInv_def injectedOnce_def split: if_splits)
qed

lemma todosLoop_once:
  assumes wf: "wfPositions g" and d: "d0 \<in> set (graphDecls g)"
  shows "set cs \<subseteq> set (todos g) \<Longrightarrow> onceInv d0 st \<Longrightarrow>
     todosLoop fuel p g cs st = Some st' \<Longrightarrow> onceInv d0 st'"
proof (induction cs arbitrary: st)
  case Nil
  then show ?case by simp
next
  case (Cons c cs)
  from Cons.prems(3) obtain st1 where
    r: "rewriteTODO fuel p g c st = Some st1" and l: "todosLoop fuel p g cs st1 = Some st'"
    by (auto split: option.splits)
  from Cons.prems(1) have "c \<in> set (todos g)" "set cs \<subseteq> set (todos g)" by auto
  with rewriteTODO_once [OF wf d _ Cons.prems(2) r] Cons.IH [OF _ _ l] show ?case by blast
qed

lemma transitivesLoop_once:
  assumes wf: "wfPositions g" and d: "d0 \<in> set (graphDecls g)"
  shows "set cs \<subseteq> set (transitives g) \<Longrightarrow> onceInv d0 st \<Longrightarrow>
     transitivesLoop fuel p g cs st = Some st' \<Longrightarrow> onceInv d0 st'"
proof (induction cs arbitrary: st)
  case Nil
  then show ?case by simp
next
  case (Cons c cs)
  from Cons.prems(3) obtain st1 where
    r: "rewriteTransitives fuel p g c st = Some st1"
    and l: "transitivesLoop fuel p g cs st1 = Some st'"
    by (auto split: option.splits)
  from Cons.prems(1) have "c \<in> set (transitives g)" "set cs \<subseteq> set (transitives g)" by auto
  with rewriteTransitives_once [OF wf d _ Cons.prems(2) r] Cons.IH [OF _ _ l] show ?case by blast
qed


text \<open>
  C5: with a bound of \<open>walkBound g\<close> or more, every call of
  \<^verbatim>\<open>propagateContextThrough\<close> returns, whatever the call graph (cycles included), and so
  does the whole of \<^verbatim>\<open>buildDiagnostics\<close>; and in the edits of all the diagnostics it
  reports, the insertion of a context parameter into a declaration of the graph occurs
  at most once, however many walks reach the declaration.
\<close>

theorem propagation_terminates_and_injects_once:
  assumes "wfPositions g" and "walkBound g \<le> fuel"
  shows "(\<exists>r. propagateContextThrough fuel p g dopt seen st = Some r) \<and>
     (\<exists>st'. buildDiagnostics fuel p g initialState = Some st' \<and>
        list_all (\<lambda>d. count_list (allEdits (reports st')) (editToPrependCtxParam d) \<le> 1)
          (graphDecls g))"
proof
  from through_terminates [OF assms(2), of p dopt seen st]
  show "\<exists>r. propagateContextThrough fuel p g dopt seen st = Some r" by blast
next
  from buildDiagnostics_terminates [OF assms(2), of p initialState] obtain st' where
    b: "buildDiagnostics fuel p g initialState = Some st'" by blast
  then obtain st1 where t: "todosLoop fuel p g (todos g) initialState = Some st1"
    and u: "transitivesLoop fuel p g (transitives g) st1 = Some st'"
    by (auto simp: buildDiagnostics_def split: option.splits)
  have "count_list (allEdits (reports st')) (editToPrependCtxParam d) \<le> 1"
    if d: "d \<in> set (graphDecls g)" for d
  proof -
    have "onceInv d initialState" by (simp add: onceInv_def initialState_def)
    from todosLoop_once [OF assms(1) d _ this t] have "onceInv d st1" by simp
    from transitivesLoop_once [OF assms(1) d _ this u] have "onceInv d st'" by simp
    then show ?thesis by (simp add: onceInv_def split: if_splits)
  qed
  with b show "\<exists>st'. buildDiagnostics fuel p g initialState = Some st' \<and>
        list_all (\<lambda>d. count_list (allEdits (reports st')) (editToPrependCtxParam d) \<le> 1)
          (graphDecls g)"
    by (auto simp: list_all_iff)
qed

theorem propagation_terminates_and_injects_once_witness:
  "(\<exists>r. propagateContextThrough 4 onePass (buildCallGraph onePass [cycleFile])
          (Some cycle1Decl) {} initialState = Some r) \<and>
   (\<exists>st'. buildDiagnostics 4 onePass (buildCallGraph onePass [cycleFile]) initialState = Some st' \<and>
      list_all (\<lambda>d. count_list (allEdits (reports st')) (editToPrependCtxParam d) \<le> 1)
        (graphDecls (buildCallGraph onePass [cycleFile])))"
proof -
  have wf: "wfPositions (buildCallGraph onePass [cycleFile])" by code_simp
  have wb: "walkBound (buildCallGraph onePass [cycleFile]) \<le> 4" by code_simp
  from propagation_terminates_and_injects_once [OF wf wb] show ?thesis .
qed

section \<open>The requests that the walk records\<close>

lemma walkFuncDecl_todos:
  "walkFuncDecl d g = (True, snd (walkFuncDecl d g)) \<and> todos (snd (walkFuncDecl d g)) = todos g"
  by (simp add: walkFuncDecl_def)

lemma walkAssignStmt_cases:
  obtains (skip) "walkAssignStmt stack a lhs rhs g = (True, g)"
  | (todo) i c f where "lhs = [Ident i]" "idName i = ''ctx'' \<or> idName i = ''_''"
      "asCallExpr (hd rhs) = Some (c, f)" "length rhs = 1"
      "walkAssignStmt stack a lhs rhs g =
         (False, g\<lparr>todos := todos g @ [\<lparr>path = stack, call = c, assign = Some a\<rparr>]\<rparr>)"
proof (cases "fst (walkAssignStmt stack a lhs rhs g)")
  case True
  then have "walkAssignStmt stack a lhs rhs g = (True, g)"
    by (auto simp: walkAssignStmt_def split: if_splits option.splits)
  then show ?thesis by (rule skip)
next
  case False
  then obtain i where l: "length lhs = 1" "asIdent (hd lhs) = Some i" and r: "length rhs = 1"
    and nm: "idName i = ''ctx'' \<or> idName i = ''_''"
    by (auto simp: walkAssignStmt_def split: if_splits option.splits)
  from l have lhs: "lhs = [Ident i]"
    by (cases lhs; cases "hd lhs") auto
  from False l r nm obtain c f where cf: "asCallExpr (hd rhs) = Some (c, f)"
    by (auto simp: walkAssignStmt_def split: if_splits option.splits)
  with False l r nm have
    "walkAssignStmt stack a lhs rhs g =
         (False, g\<lparr>todos := todos g @ [\<lparr>path = stack, call = c, assign = Some a\<rparr>]\<rparr>)"
    by (auto simp: walkAssignStmt_def split: if_splits option.splits)
  with lhs nm cf r show ?thesis by (rule todo)
qed






section \<open>The edits of a pass do not overlap\<close>

lemma orderedRanges_weaken: "orderedRanges lo rs \<Longrightarrow> lo' \<le> lo \<Longrightarrow> orderedRanges lo' rs"
  by (cases rs) auto

lemma orderedRanges_bounds:
  "orderedRanges lo rs \<Longrightarrow> r \<in> set rs \<Longrightarrow> lo \<le> fst r \<and> fst r < snd r"
proof (induction rs arbitrary: lo)
  case Nil
  then show ?case by simp
next
  case (Cons a rs)
  show ?case
  proof (cases "r = a")
    case True
    with Cons.prems show ?thesis by simp
  next
    case False
    with Cons.prems have "orderedRanges (snd a) rs" "r \<in> set rs" by simp_all
    from Cons.IH [OF this] Cons.prems(1) show ?thesis by simp
  qed
qed

lemma orderedRanges_append:
  "orderedRanges lo xs \<Longrightarrow> list_all (\<lambda>r. snd r \<le> m) xs \<Longrightarrow> lo \<le> m \<Longrightarrow>
   orderedRanges m ys \<Longrightarrow> orderedRanges lo (xs @ ys)"
proof (induction xs arbitrary: lo)
  case Nil
  then show ?case by (simp add: orderedRanges_weaken)
next
  case (Cons a xs)
  then show ?case by auto
qed

lemma map_of_addMapping:
  "map_of (addMapping k v al) k' = (if k' = k then Some v else map_of al k')"
proof (cases "k \<in> set (map fst al)")
  case True
  then have n: "map_of al k \<noteq> None" by (simp add: map_of_eq_None_iff)
  have "map_of (map (\<lambda>(k', v'). if k' = k then (k', v) else (k', v')) al) k' =
      (if k' = k then (case map_of al k of None \<Rightarrow> None | Some w \<Rightarrow> Some v)
       else map_of al k')"
    by (induction al) auto
  with True n show ?thesis by (auto simp add: addMapping_def)
next
  case False
  then have "map_of al k = None" by (simp add: map_of_eq_None_iff)
  with False show ?thesis by (auto simp add: addMapping_def map_add_def split: option.splits)
qed

lemma callersOf_addMapping:
  "callersOf (g\<lparr>callers := addMapping k v (callers g)\<rparr>) k' =
     (if k' = k then v else callersOf g k')"
  by (simp add: callersOf_def map_of_addMapping)

lemma callersOf_other [simp]:
  "callersOf (g\<lparr>todos := x\<rparr>) k = callersOf g k"
  "callersOf (g\<lparr>transitives := y\<rparr>) k = callersOf g k"
  "callersOf (g\<lparr>byObj := z\<rparr>) k = callersOf g k"
  by (simp_all add: callersOf_def)

lemma distinct_map_append:
  assumes "distinct (map f xs)" and "distinct (map f ys)"
    and "\<And>a b. a \<in> set xs \<Longrightarrow> b \<in> set ys \<Longrightarrow> f a \<noteq> f b"
  shows "distinct (map f (xs @ ys))"
  using assms by auto

lemma adds_same:
  "todos g' = todos g \<Longrightarrow> transitives g' = transitives g \<Longrightarrow>
   (\<forall>k. callersOf g' k = callersOf g k) \<Longrightarrow> adds lo hi g g'"
  unfolding adds_def by (intro exI [of _ "[]"]) simp

lemma adds_cong:
  "todos g1 = todos g \<Longrightarrow> transitives g1 = transitives g \<Longrightarrow>
   (\<forall>k. callersOf g1 k = callersOf g k) \<Longrightarrow> adds lo hi g1 g' \<Longrightarrow> adds lo hi g g'"
  by (simp add: adds_def)

lemma adds_mono:
  assumes "adds lo hi g g'" and "lo' \<le> lo" and "hi \<le> hi'"
  shows "adds lo' hi' g g'"
proof -
  from assms(1) obtain ts us vs where a:
    "todos g' = todos g @ ts" "transitives g' = transitives g @ us"
    "\<forall>k. callersOf g' k = callersOf g k @ map snd (filter (\<lambda>e. fst e = k) vs)"
    "orderedRanges lo (map requestRange ts)"
    "list_all (\<lambda>r. snd r \<le> hi) (map requestRange ts)"
    "distinct (map callPoint us)" "distinct (map (\<lambda>e. callPoint (snd e)) vs)"
    "\<forall>c \<in> set us \<union> snd ` set vs.
       lo < callPoint c \<and> callPoint c \<le> hi \<and>
       (\<forall>t \<in> set ts. \<not> inside (callPoint c) (requestRange t))"
    unfolding adds_def by blast
  from a(4) assms(2) have o: "orderedRanges lo' (map requestRange ts)"
    by (rule orderedRanges_weaken)
  from a(5) assms(3) have h: "list_all (\<lambda>r. snd r \<le> hi') (map requestRange ts)"
    by (auto simp: list_all_iff)
  have b: "\<forall>c \<in> set us \<union> snd ` set vs.
       lo' < callPoint c \<and> callPoint c \<le> hi' \<and>
       (\<forall>t \<in> set ts. \<not> inside (callPoint c) (requestRange t))"
  proof
    fix c
    assume "c \<in> set us \<union> snd ` set vs"
    with a(8) have "lo < callPoint c \<and> callPoint c \<le> hi \<and>
       (\<forall>t \<in> set ts. \<not> inside (callPoint c) (requestRange t))" by blast
    with assms(2,3) show "lo' < callPoint c \<and> callPoint c \<le> hi' \<and>
       (\<forall>t \<in> set ts. \<not> inside (callPoint c) (requestRange t))" by auto
  qed
  from a(1,2,3) o h a(6,7) b show ?thesis unfolding adds_def by blast
qed

lemma adds_trans:
  assumes "adds lo m g g1" and "adds m hi g1 g2" and "lo \<le> m" and "m \<le> hi"
  shows "adds lo hi g g2"
proof -
  from assms(1) obtain ts us vs where a:
    "todos g1 = todos g @ ts" "transitives g1 = transitives g @ us"
    "\<forall>k. callersOf g1 k = callersOf g k @ map snd (filter (\<lambda>e. fst e = k) vs)"
    "orderedRanges lo (map requestRange ts)"
    "list_all (\<lambda>r. snd r \<le> m) (map requestRange ts)"
    "distinct (map callPoint us)" "distinct (map (\<lambda>e. callPoint (snd e)) vs)"
    "\<forall>c \<in> set us \<union> snd ` set vs.
       lo < callPoint c \<and> callPoint c \<le> m \<and>
       (\<forall>t \<in> set ts. \<not> inside (callPoint c) (requestRange t))"
    unfolding adds_def by blast
  from assms(2) obtain ts' us' vs' where b:
    "todos g2 = todos g1 @ ts'" "transitives g2 = transitives g1 @ us'"
    "\<forall>k. callersOf g2 k = callersOf g1 k @ map snd (filter (\<lambda>e. fst e = k) vs')"
    "orderedRanges m (map requestRange ts')"
    "list_all (\<lambda>r. snd r \<le> hi) (map requestRange ts')"
    "distinct (map callPoint us')" "distinct (map (\<lambda>e. callPoint (snd e)) vs')"
    "\<forall>c \<in> set us' \<union> snd ` set vs'.
       m < callPoint c \<and> callPoint c \<le> hi \<and>
       (\<forall>t \<in> set ts'. \<not> inside (callPoint c) (requestRange t))"
    unfolding adds_def by blast
  have 1: "todos g2 = todos g @ (ts @ ts')" using a(1) b(1) by simp
  have 2: "transitives g2 = transitives g @ (us @ us')" using a(2) b(2) by simp
  have 3: "\<forall>k. callersOf g2 k = callersOf g k @ map snd (filter (\<lambda>e. fst e = k) (vs @ vs'))"
    using a(3) b(3) by simp
  have 4: "orderedRanges lo (map requestRange (ts @ ts'))"
    using orderedRanges_append [OF a(4,5) assms(3) b(4)] by simp
  have 5: "list_all (\<lambda>r. snd r \<le> hi) (map requestRange (ts @ ts'))"
    using a(5) b(5) assms(4) by (auto simp: list_all_iff)
  have 6: "distinct (map callPoint (us @ us'))"
  proof (rule distinct_map_append [OF a(6) b(6)])
    fix c c' assume "c \<in> set us" "c' \<in> set us'"
    with a(8) b(8) have "callPoint c \<le> m" "m < callPoint c'" by auto
    then show "callPoint c \<noteq> callPoint c'" by simp
  qed
  have 7: "distinct (map (\<lambda>e. callPoint (snd e)) (vs @ vs'))"
  proof (rule distinct_map_append [OF a(7) b(7)])
    fix e e' assume "e \<in> set vs" "e' \<in> set vs'"
    then have "snd e \<in> snd ` set vs" "snd e' \<in> snd ` set vs'" by simp_all
    with a(8) b(8) have "callPoint (snd e) \<le> m" "m < callPoint (snd e')" by auto
    then show "callPoint (snd e) \<noteq> callPoint (snd e')" by simp
  qed
  have lo': "\<forall>t \<in> set ts'. m \<le> fst (requestRange t)"
    using orderedRanges_bounds [OF b(4)] by auto
  have hi': "\<forall>t \<in> set ts. snd (requestRange t) \<le> m"
    using a(5) by (auto simp: list_all_iff)
  have 8: "\<forall>c \<in> set (us @ us') \<union> snd ` set (vs @ vs').
       lo < callPoint c \<and> callPoint c \<le> hi \<and>
       (\<forall>t \<in> set (ts @ ts'). \<not> inside (callPoint c) (requestRange t))"
  proof
    fix c
    assume "c \<in> set (us @ us') \<union> snd ` set (vs @ vs')"
    then consider (old) "c \<in> set us \<union> snd ` set vs" | (new) "c \<in> set us' \<union> snd ` set vs'"
      by auto
    then show "lo < callPoint c \<and> callPoint c \<le> hi \<and>
       (\<forall>t \<in> set (ts @ ts'). \<not> inside (callPoint c) (requestRange t))"
    proof cases
      case old
      with a(8) have c: "lo < callPoint c" "callPoint c \<le> m"
        "\<forall>t \<in> set ts. \<not> inside (callPoint c) (requestRange t)" by auto
      from c(2) lo' have "\<forall>t \<in> set ts'. \<not> inside (callPoint c) (requestRange t)"
        by (auto simp: inside_def)
      with c assms(4) show ?thesis by auto
    next
      case new
      with b(8) have c: "m < callPoint c" "callPoint c \<le> hi"
        "\<forall>t \<in> set ts'. \<not> inside (callPoint c) (requestRange t)" by auto
      from c(1) hi' have "\<forall>t \<in> set ts. \<not> inside (callPoint c) (requestRange t)"
        by (auto simp: inside_def)
      with c assms(3) show ?thesis by auto
    qed
  qed
  from 1 2 3 4 5 6 7 8 show ?thesis unfolding adds_def by blast
qed

lemma adds_one:
  "lo \<le> fst (requestRange t) \<Longrightarrow> fst (requestRange t) < snd (requestRange t) \<Longrightarrow>
   snd (requestRange t) \<le> hi \<Longrightarrow> adds lo hi g (g\<lparr>todos := todos g @ [t]\<rparr>)"
  unfolding adds_def by (intro exI [of _ "[t]"] exI [of _ "[]"]) simp

text \<open>A call is recorded at its insertion point, before its function is walked.\<close>

lemma adds_record:
  assumes t: "todos g1 = todos g" and u: "transitives g1 = transitives g @ us0"
    and v: "\<forall>k. callersOf g1 k = callersOf g k @ map snd (filter (\<lambda>e. fst e = k) vs0)"
    and x: "\<forall>c \<in> set us0 \<union> snd ` set vs0. callPoint c = x"
    and l: "length us0 \<le> 1" "length vs0 \<le> 1"
    and a: "adds lo m g1 g2" and m: "lo \<le> m" "m < x"
  shows "adds lo x g g2"
proof -
  from a obtain ts us vs where b:
    "todos g2 = todos g1 @ ts" "transitives g2 = transitives g1 @ us"
    "\<forall>k. callersOf g2 k = callersOf g1 k @ map snd (filter (\<lambda>e. fst e = k) vs)"
    "orderedRanges lo (map requestRange ts)"
    "list_all (\<lambda>r. snd r \<le> m) (map requestRange ts)"
    "distinct (map callPoint us)" "distinct (map (\<lambda>e. callPoint (snd e)) vs)"
    "\<forall>c \<in> set us \<union> snd ` set vs.
       lo < callPoint c \<and> callPoint c \<le> m \<and>
       (\<forall>t \<in> set ts. \<not> inside (callPoint c) (requestRange t))"
    unfolding adds_def by blast
  have 1: "todos g2 = todos g @ ts" using t b(1) by simp
  have 2: "transitives g2 = transitives g @ (us0 @ us)" using u b(2) by simp
  have 3: "\<forall>k. callersOf g2 k = callersOf g k @ map snd (filter (\<lambda>e. fst e = k) (vs0 @ vs))"
    using v b(3) by simp
  have 5: "list_all (\<lambda>r. snd r \<le> x) (map requestRange ts)"
    using b(5) m(2) by (auto simp: list_all_iff)
  from l(1) have d0: "distinct (map callPoint us0)" by (cases us0) simp_all
  from l(2) have e0: "distinct (map (\<lambda>e. callPoint (snd e)) vs0)" by (cases vs0) simp_all
  have 6: "distinct (map callPoint (us0 @ us))"
  proof (rule distinct_map_append [OF d0 b(6)])
    fix c c' assume "c \<in> set us0" "c' \<in> set us"
    with x b(8) have "callPoint c = x" "callPoint c' \<le> m" by auto
    with m(2) show "callPoint c \<noteq> callPoint c'" by simp
  qed
  have 7: "distinct (map (\<lambda>e. callPoint (snd e)) (vs0 @ vs))"
  proof (rule distinct_map_append [OF e0 b(7)])
    fix e e' assume "e \<in> set vs0" "e' \<in> set vs"
    then have "snd e \<in> snd ` set vs0" "snd e' \<in> snd ` set vs" by simp_all
    with x b(8) have "callPoint (snd e) = x" "callPoint (snd e') \<le> m" by auto
    with m(2) show "callPoint (snd e) \<noteq> callPoint (snd e')" by simp
  qed
  have hi': "\<forall>t \<in> set ts. snd (requestRange t) \<le> m"
    using b(5) by (auto simp: list_all_iff)
  have 8: "\<forall>c \<in> set (us0 @ us) \<union> snd ` set (vs0 @ vs).
       lo < callPoint c \<and> callPoint c \<le> x \<and>
       (\<forall>t \<in> set ts. \<not> inside (callPoint c) (requestRange t))"
  proof
    fix c
    assume "c \<in> set (us0 @ us) \<union> snd ` set (vs0 @ vs)"
    then consider (own) "c \<in> set us0 \<union> snd ` set vs0" | (sub) "c \<in> set us \<union> snd ` set vs"
      by auto
    then show "lo < callPoint c \<and> callPoint c \<le> x \<and>
       (\<forall>t \<in> set ts. \<not> inside (callPoint c) (requestRange t))"
    proof cases
      case own
      with x have "callPoint c = x" by blast
      with m hi' show ?thesis by (auto simp: inside_def)
    next
      case sub
      with b(8) have "lo < callPoint c \<and> callPoint c \<le> m \<and>
        (\<forall>t \<in> set ts. \<not> inside (callPoint c) (requestRange t))" by blast
      with m(2) show ?thesis by simp
    qed
  qed
  from 1 2 3 b(4) 5 6 7 8 show ?thesis unfolding adds_def by blast
qed

lemma wfNode_span: "wfNode n \<Longrightarrow> fst (span n) \<le> snd (span n)"
  by (cases n) simp_all

lemma asCallExpr_SomeE:
  assumes "asCallExpr n = Some (c, f)"
  obtains args where "n = CallExpr c f args"
  using assms by (cases n) simp_all

lemma walkCallExpr_record:
  obtains (todo) "walkCallExpr p stack c f g =
         (False, g\<lparr>todos := todos g @ [\<lparr>path = stack, call = c, assign = None\<rparr>]\<rparr>)"
  | (other) g2 us0 vs0 where "walkCallExpr p stack c f g = (True, g2)" "todos g2 = todos g"
      "transitives g2 = transitives g @ us0"
      "\<forall>k. callersOf g2 k = callersOf g k @ map snd (filter (\<lambda>e. fst e = k) vs0)"
      "\<forall>c' \<in> set us0 \<union> snd ` set vs0. call c' = c"
      "length us0 \<le> 1" "length vs0 \<le> 1"
proof (cases "fst (walkCallExpr p stack c f g)")
  case False
  then have "walkCallExpr p stack c f g =
         (False, g\<lparr>todos := todos g @ [\<lparr>path = stack, call = c, assign = None\<rparr>]\<rparr>)"
    by (auto simp: walkCallExpr_def Let_def split: option.splits if_splits)
  then show ?thesis by (rule todo)
next
  case True
  let ?lc = "\<lparr>path = stack, call = c, assign = None\<rparr>"
  let ?i = "case asIdent f of Some i \<Rightarrow> Some i | None \<Rightarrow> asSelectorSel f"
  show ?thesis
  proof (cases "\<exists>i called. ?i = Some i \<and> idObj i = Some called \<and> \<not> isContextTODO (Some called)")
    case False
    with True have "walkCallExpr p stack c f g = (True, g)"
      by (auto simp: walkCallExpr_def Let_def split: option.splits if_splits)
    then show ?thesis by (rule other [where ?us0.0 = "[]" and ?vs0.0 = "[]"]) simp_all
  next
    case rec: True
    then obtain i called where i: "?i = Some i" "idObj i = Some called"
      "\<not> isContextTODO (Some called)" by blast
    let ?vs = "if isLocal p (objPkgPath called) then [(objId called, ?lc)] else []"
    let ?us = "if importedFact p (objId called) then [?lc] else []"
    let ?g1 = "if isLocal p (objPkgPath called)
               then g\<lparr>callers := addMapping (objId called)
                        (callersOf g (objId called) @ [?lc]) (callers g)\<rparr>
               else g"
    let ?g2 = "if importedFact p (objId called)
               then ?g1\<lparr>transitives := transitives ?g1 @ [?lc]\<rparr> else ?g1"
    from i have w: "walkCallExpr p stack c f g = (True, ?g2)"
      by (simp add: walkCallExpr_def Let_def)
    have 1: "todos ?g2 = todos g" by simp
    have 2: "transitives ?g2 = transitives g @ ?us" by simp
    have 3: "\<forall>k. callersOf ?g2 k = callersOf g k @ map snd (filter (\<lambda>e. fst e = k) ?vs)"
      by (auto simp add: callersOf_addMapping)
    have 4: "\<forall>c' \<in> set ?us \<union> snd ` set ?vs. call c' = c" by auto
    have 5: "length ?us \<le> 1" "length ?vs \<le> 1" by simp_all
    from w 1 2 3 4 5 show ?thesis by (rule other)
  qed
qed

lemma walk_adds:
  "wfNode n \<longrightarrow> adds (fst (span n)) (snd (span n)) g (walk p stack n g)"
  "\<forall>lo hi. list_all wfNode ns \<and> spansWithin lo hi ns \<and> lo \<le> hi
     \<longrightarrow> adds lo hi g (walkNodes p stack ns g)"
proof (induction p stack n g and p stack ns g rule: walk_walkNodes.induct)
  case (1 p stack fp fe ds g)
  then show ?case by simp
next
  case (2 p stack d cs g)
  show ?case
  proof
    assume wf: "wfNode (FuncDecl d cs)"
    define g1 where "g1 = snd (walkFuncDecl d g)"
    have w: "walkFuncDecl d g = (True, g1)" and t: "todos g1 = todos g"
      "transitives g1 = transitives g" "\<forall>k. callersOf g1 k = callersOf g k"
      by (simp_all add: g1_def walkFuncDecl_def)
    from 2 [OF w [symmetric]] wf
    have "adds (declPos d) (declEnd d) g1 (walkNodes p (stack @ [FuncDecl d cs]) cs g1)"
      by simp
    from adds_cong [OF t this] w
    show "adds (fst (span (FuncDecl d cs))) (snd (span (FuncDecl d cs))) g
        (walk p stack (FuncDecl d cs) g)"
      by simp
  qed
next
  case (3 p stack l cs g)
  then show ?case by simp
next
  case (4 p stack bp be sc cs g)
  then show ?case by simp
next
  case (5 p stack a lhs rhs g)
  show ?case
  proof
    assume wf: "wfNode (AssignStmt a lhs rhs)"
    let ?stack = "stack @ [AssignStmt a lhs rhs]"
    show "adds (fst (span (AssignStmt a lhs rhs))) (snd (span (AssignStmt a lhs rhs))) g
        (walk p stack (AssignStmt a lhs rhs) g)"
    proof (cases rule: walkAssignStmt_cases [of ?stack a lhs rhs g])
      case skip
      from 5 [OF skip [symmetric]] wf skip show ?thesis by simp
    next
      case (todo i c f)
      from todo(4) have "rhs = [hd rhs]" by (cases rhs) simp_all
      moreover from todo(3) obtain args where "hd rhs = CallExpr c f args"
        by (rule asCallExpr_SomeE)
      ultimately have rhs: "rhs = [CallExpr c f args]" by simp
      from wf todo(1) rhs have
        "asPos a < cRparen c + 1" "cRparen c + 1 \<le> asEnd a"
        by (auto simp: spansWithin_def)
      then have "adds (asPos a) (asEnd a) g
          (g\<lparr>todos := todos g @ [\<lparr>path = ?stack, call = c, assign = Some a\<rparr>]\<rparr>)"
        by (intro adds_one) (simp_all add: requestRange_def)
      with todo(5) show ?thesis by simp
    qed
  qed
next
  case (6 p stack c f args g)
  show ?case
  proof
    assume wf: "wfNode (CallExpr c f args)"
    let ?stack = "stack @ [CallExpr c f args]"
    show "adds (fst (span (CallExpr c f args))) (snd (span (CallExpr c f args))) g
        (walk p stack (CallExpr c f args) g)"
    proof (cases rule: walkCallExpr_record [of p ?stack c f g])
      case todo
      from wf have "adds (cPos c) (cEnd c) g
          (g\<lparr>todos := todos g @ [\<lparr>path = ?stack, call = c, assign = None\<rparr>]\<rparr>)"
        by (intro adds_one) (simp_all add: requestRange_def)
      with todo show ?thesis by simp
    next
      case (other g2 us0 vs0)
      from wf have f: "wfNode f" and fs: "cPos c \<le> fst (span f)" "snd (span f) \<le> cLparen c"
        and args: "list_all wfNode args" "spansWithin (cLparen c + 1) (cRparen c) args"
        and pc: "cPos c \<le> cLparen c" "cLparen c < cRparen c" "cRparen c + 1 = cEnd c"
        by (auto simp: spansWithin_def)
      let ?g3 = "walk p ?stack f g2"
      from 6(1) [OF other(1) [symmetric]] f
      have "adds (fst (span f)) (snd (span f)) g2 ?g3" by simp
      from adds_mono [OF this fs]
      have a1: "adds (cPos c) (cLparen c) g2 ?g3" .
      from other(5) have x: "\<forall>c' \<in> set us0 \<union> snd ` set vs0. callPoint c' = cLparen c + 1"
        by (simp add: callPoint_def)
      from adds_record [OF other(2,3,4) x other(6,7) a1 pc(1)]
      have a2: "adds (cPos c) (cLparen c + 1) g ?g3" by simp
      from 6(2) [OF other(1) [symmetric]] args pc(2)
      have a3: "adds (cLparen c + 1) (cRparen c) ?g3 (walkNodes p ?stack args ?g3)" by simp
      from adds_trans [OF a2 a3] pc
      have "adds (cPos c) (cRparen c) g (walkNodes p ?stack args ?g3)" by simp
      from adds_mono [OF this, of "cPos c" "cEnd c"] pc(3)
      have "adds (cPos c) (cEnd c) g (walkNodes p ?stack args ?g3)" by simp
      with other(1) show ?thesis by simp
    qed
  qed
next
  case (7 p stack i g)
  show ?case by (simp add: adds_same)
next
  case (8 p stack sp se x sel g)
  show ?case
  proof
    assume wf: "wfNode (SelectorExpr sp se x sel)"
    then have x: "wfNode x" "sp \<le> fst (span x)" "snd (span x) \<le> se"
      by (auto simp: spansWithin_def)
    from 8(1) x(1) have "adds (fst (span x)) (snd (span x)) g
        (walk p (stack @ [SelectorExpr sp se x sel]) x g)" by simp
    from adds_mono [OF this x(2,3)]
    show "adds (fst (span (SelectorExpr sp se x sel))) (snd (span (SelectorExpr sp se x sel))) g
        (walk p stack (SelectorExpr sp se x sel) g)"
      by simp
  qed
next
  case (9 p stack op oe cs g)
  then show ?case by simp
next
  case (10 p stack g)
  show ?case by (simp add: adds_same)
next
  case (11 p stack n ns g)
  show ?case
  proof (intro allI impI)
    fix lo hi
    assume a: "list_all wfNode (n # ns) \<and> spansWithin lo hi (n # ns) \<and> lo \<le> hi"
    then have n: "wfNode n" "lo \<le> fst (span n)" "snd (span n) \<le> hi"
      and ns: "list_all wfNode ns" "spansWithin (snd (span n)) hi ns"
      by (auto simp: spansWithin_def)
    from 11(1) n(1) have a1: "adds (fst (span n)) (snd (span n)) g (walk p stack n g)"
      by simp
    from 11(2) ns n(3) have a2: "adds (snd (span n)) hi (walk p stack n g)
        (walkNodes p stack ns (walk p stack n g))" by simp
    from adds_trans [OF a1 a2 wfNode_span [OF n(1)] n(3)] n(2)
    show "adds lo hi g (walkNodes p stack (n # ns) g)"
      by (simp add: adds_mono)
  qed
qed

lemma overlap_sym: "overlap r s = overlap s r"
  by (auto simp: overlap_def)

lemma pairwiseDisjoint_append:
  "pairwiseDisjoint (xs @ ys) =
     (pairwiseDisjoint xs \<and> pairwiseDisjoint ys \<and>
      (\<forall>x \<in> set xs. \<forall>y \<in> set ys. \<not> overlap x y))"
  by (induction xs) (auto simp: list_all_iff)

lemma ordered_disjoint: "orderedRanges lo rs \<Longrightarrow> pairwiseDisjoint rs"
proof (induction rs arbitrary: lo)
  case Nil
  show ?case by simp
next
  case (Cons a rs)
  from Cons.prems have o: "orderedRanges (snd a) rs" and a: "fst a < snd a" by simp_all
  have "\<not> overlap a s" if "s \<in> set rs" for s
    using orderedRanges_bounds [OF o that] a by (auto simp: overlap_def)
  with Cons.IH [OF o] show ?case by (simp add: list_all_iff)
qed

text \<open>What lies in two ranges that do not overlap.\<close>

lemma apart:
  assumes "\<not> overlap s (lo, hi)"
  shows "\<not> (fst s < hi \<and> lo < snd s)"
  using assms by (simp add: overlap_def)

lemma recorded_step:
  assumes r: "recorded S g" and a: "adds lo hi g g'"
    and s: "\<forall>s \<in> set S. \<not> overlap s (lo, hi)"
  shows "recorded ((lo, hi) # S) g'"
proof -
  from r obtain vs0 where r:
    "\<forall>k. callersOf g k = map snd (filter (\<lambda>e. fst e = k) vs0)"
    "pairwiseDisjoint (map requestRange (todos g))"
    "\<forall>t \<in> set (todos g).
       fst (requestRange t) < snd (requestRange t) \<and>
       (\<exists>s \<in> set S. fst s \<le> fst (requestRange t) \<and> snd (requestRange t) \<le> snd s)"
    "distinct (map callPoint (transitives g))"
    "distinct (map (\<lambda>e. callPoint (snd e)) vs0)"
    "\<forall>c \<in> set (transitives g) \<union> snd ` set vs0.
       (\<exists>s \<in> set S. fst s < callPoint c \<and> callPoint c \<le> snd s) \<and>
       (\<forall>t \<in> set (todos g). \<not> inside (callPoint c) (requestRange t))"
    unfolding recorded_def by blast
  from a obtain ts us vs where a:
    "todos g' = todos g @ ts" "transitives g' = transitives g @ us"
    "\<forall>k. callersOf g' k = callersOf g k @ map snd (filter (\<lambda>e. fst e = k) vs)"
    "orderedRanges lo (map requestRange ts)"
    "list_all (\<lambda>r. snd r \<le> hi) (map requestRange ts)"
    "distinct (map callPoint us)" "distinct (map (\<lambda>e. callPoint (snd e)) vs)"
    "\<forall>c \<in> set us \<union> snd ` set vs.
       lo < callPoint c \<and> callPoint c \<le> hi \<and>
       (\<forall>t \<in> set ts. \<not> inside (callPoint c) (requestRange t))"
    unfolding adds_def by blast
  have oldT: "fst (requestRange t) < snd (requestRange t) \<and>
      \<not> (fst (requestRange t) < hi \<and> lo < snd (requestRange t))"
    if "t \<in> set (todos g)" for t
  proof -
    from r(3) that obtain s where "s \<in> set S" "fst (requestRange t) < snd (requestRange t)"
      "fst s \<le> fst (requestRange t)" "snd (requestRange t) \<le> snd s" by blast
    with apart [of s lo hi] s show ?thesis by auto
  qed
  have newT: "lo \<le> fst (requestRange t) \<and> fst (requestRange t) < snd (requestRange t) \<and>
      snd (requestRange t) \<le> hi" if "t \<in> set ts" for t
    using orderedRanges_bounds [OF a(4), of "requestRange t"] a(5) that
    by (auto simp: list_all_iff)
  have oldC: "\<not> (lo < callPoint c \<and> callPoint c \<le> hi) \<and>
      \<not> (lo < callPoint c \<and> callPoint c < hi) \<and>
      (\<forall>x y. lo \<le> x \<and> y \<le> hi \<longrightarrow> \<not> (x < callPoint c \<and> callPoint c < y))"
    if "c \<in> set (transitives g) \<union> snd ` set vs0" for c
  proof -
    from r(6) that obtain s where "s \<in> set S" "fst s < callPoint c" "callPoint c \<le> snd s"
      by blast
    with apart [of s lo hi] s show ?thesis by auto
  qed
  have newC: "lo < callPoint c \<and> callPoint c \<le> hi"
    if "c \<in> set us \<union> snd ` set vs" for c
    using a(8) that by blast
  have 1: "\<forall>k. callersOf g' k = map snd (filter (\<lambda>e. fst e = k) (vs0 @ vs))"
    using r(1) a(3) by simp
  have 2: "pairwiseDisjoint (map requestRange (todos g'))"
    unfolding a(1) map_append pairwiseDisjoint_append
  proof (intro conjI ballI)
    show "pairwiseDisjoint (map requestRange (todos g))" by (rule r(2))
    show "pairwiseDisjoint (map requestRange ts)" using a(4) by (rule ordered_disjoint)
  next
    fix x y
    assume "x \<in> set (map requestRange (todos g))" "y \<in> set (map requestRange ts)"
    then obtain t t' where "t \<in> set (todos g)" "x = requestRange t"
      "t' \<in> set ts" "y = requestRange t'" by auto
    with oldT [of t] newT [of t'] show "\<not> overlap x y" by (auto simp: overlap_def)
  qed
  have 3: "\<forall>t \<in> set (todos g').
       fst (requestRange t) < snd (requestRange t) \<and>
       (\<exists>s \<in> set ((lo, hi) # S).
          fst s \<le> fst (requestRange t) \<and> snd (requestRange t) \<le> snd s)"
  proof
    fix t assume "t \<in> set (todos g')"
    then consider "t \<in> set (todos g)" | "t \<in> set ts" unfolding a(1) by auto
    then show "fst (requestRange t) < snd (requestRange t) \<and>
       (\<exists>s \<in> set ((lo, hi) # S).
          fst s \<le> fst (requestRange t) \<and> snd (requestRange t) \<le> snd s)"
    proof cases
      case 1
      with r(3) show ?thesis by auto
    next
      case 2
      with newT [of t] show ?thesis by auto
    qed
  qed
  have 4: "distinct (map callPoint (transitives g'))"
    unfolding a(2)
  proof (rule distinct_map_append [OF r(4) a(6)])
    fix c c' assume "c \<in> set (transitives g)" "c' \<in> set us"
    with oldC [of c] newC [of c'] show "callPoint c \<noteq> callPoint c'" by auto
  qed
  have 5: "distinct (map (\<lambda>e. callPoint (snd e)) (vs0 @ vs))"
  proof (rule distinct_map_append [OF r(5) a(7)])
    fix e e' assume "e \<in> set vs0" "e' \<in> set vs"
    then have "snd e \<in> set (transitives g) \<union> snd ` set vs0"
      "snd e' \<in> set us \<union> snd ` set vs" by simp_all
    with oldC [of "snd e"] newC [of "snd e'"]
    show "callPoint (snd e) \<noteq> callPoint (snd e')" by auto
  qed
  have 6: "\<forall>c \<in> set (transitives g') \<union> snd ` set (vs0 @ vs).
       (\<exists>s \<in> set ((lo, hi) # S). fst s < callPoint c \<and> callPoint c \<le> snd s) \<and>
       (\<forall>t \<in> set (todos g'). \<not> inside (callPoint c) (requestRange t))"
  proof
    fix c assume "c \<in> set (transitives g') \<union> snd ` set (vs0 @ vs)"
    then consider (old) "c \<in> set (transitives g) \<union> snd ` set vs0"
      | (new) "c \<in> set us \<union> snd ` set vs"
      unfolding a(2) by auto
    then show "(\<exists>s \<in> set ((lo, hi) # S). fst s < callPoint c \<and> callPoint c \<le> snd s) \<and>
       (\<forall>t \<in> set (todos g'). \<not> inside (callPoint c) (requestRange t))"
    proof cases
      case old
      from r(6) old have w: "\<exists>s \<in> set S. fst s < callPoint c \<and> callPoint c \<le> snd s"
        and o: "\<forall>t \<in> set (todos g). \<not> inside (callPoint c) (requestRange t)" by auto
      have "\<not> inside (callPoint c) (requestRange t)" if "t \<in> set ts" for t
        using oldC [OF old] newT [OF that] by (auto simp: inside_def)
      with w o show ?thesis unfolding a(1) by auto
    next
      case new
      from a(8) new have o: "\<forall>t \<in> set ts. \<not> inside (callPoint c) (requestRange t)" by blast
      have "\<not> inside (callPoint c) (requestRange t)" if "t \<in> set (todos g)" for t
        using newC [OF new] oldT [OF that] by (auto simp: inside_def)
      with newC [OF new] o show ?thesis unfolding a(1) by auto
    qed
  qed
  from 1 2 3 4 5 6 show ?thesis unfolding recorded_def by blast
qed

lemma walkNodes_recorded:
  "recorded S g \<Longrightarrow> list_all wfNode ns \<Longrightarrow> pairwiseDisjoint (map span ns) \<Longrightarrow>
   (\<forall>s \<in> set S. \<forall>n \<in> set ns. \<not> overlap s (span n)) \<Longrightarrow>
   \<exists>S'. recorded S' (walkNodes p stack ns g)"
proof (induction ns arbitrary: S g)
  case Nil
  then show ?case by auto
next
  case (Cons n ns)
  from Cons.prems(2) have n: "wfNode n" and ns: "list_all wfNode ns" by simp_all
  from walk_adds(1) [of n g p stack] n
  have a: "adds (fst (span n)) (snd (span n)) g (walk p stack n g)" by simp
  from Cons.prems(4) have "\<forall>s \<in> set S. \<not> overlap s (fst (span n), snd (span n))" by simp
  from recorded_step [OF Cons.prems(1) a this]
  have r: "recorded (span n # S) (walk p stack n g)" by simp
  from Cons.prems(3) have d: "pairwiseDisjoint (map span ns)"
    and x: "\<forall>m \<in> set ns. \<not> overlap (span n) (span m)" by (simp_all add: list_all_iff)
  from x Cons.prems(4)
  have "\<forall>s \<in> set (span n # S). \<forall>m \<in> set ns. \<not> overlap s (span m)" by simp
  from Cons.IH [OF r ns d this] show ?case by simp
qed

lemma buildCallGraph_recorded:
  assumes "wfAst roots"
  shows "\<exists>S. recorded S (buildCallGraph p roots)"
proof -
  have "recorded [] emptyGraph"
    unfolding recorded_def
    by (intro exI [of _ "[]"]) (simp add: emptyGraph_def callersOf_def)
  from walkNodes_recorded [OF this, of roots p "[]"] assms show ?thesis
    by (simp add: wfAst_def buildCallGraph_def)
qed

text \<open>What a recorded graph gives.\<close>

lemma recorded_todos:
  assumes "recorded S g"
  shows "pairwiseDisjoint (map requestRange (todos g))"
    and "t \<in> set (todos g) \<Longrightarrow> fst (requestRange t) < snd (requestRange t)"
  using assms unfolding recorded_def by blast+

lemma recorded_transitives:
  assumes "recorded S g"
  shows "distinct (map callPoint (transitives g))"
    and "c \<in> set (transitives g) \<Longrightarrow> t \<in> set (todos g) \<Longrightarrow>
         \<not> inside (callPoint c) (requestRange t)"
  using assms unfolding recorded_def by blast+

lemma recorded_callers:
  assumes "recorded S g"
  shows "distinct (map callPoint (callersOf g k))"
    and "c \<in> set (callersOf g k) \<Longrightarrow> c' \<in> set (callersOf g k') \<Longrightarrow>
         callPoint c = callPoint c' \<Longrightarrow> k = k'"
    and "c \<in> set (callersOf g k) \<Longrightarrow> t \<in> set (todos g) \<Longrightarrow>
         \<not> inside (callPoint c) (requestRange t)"
proof -
  from assms obtain vs where r:
    "\<forall>k. callersOf g k = map snd (filter (\<lambda>e. fst e = k) vs)"
    "distinct (map (\<lambda>e. callPoint (snd e)) vs)"
    "\<forall>c \<in> set (transitives g) \<union> snd ` set vs.
       (\<forall>t \<in> set (todos g). \<not> inside (callPoint c) (requestRange t))"
    unfolding recorded_def by blast
  from r(2) have "distinct (map (\<lambda>e. callPoint (snd e)) (filter (\<lambda>e. fst e = k) vs))"
    by (rule distinct_map_filter)
  with r(1) show "distinct (map callPoint (callersOf g k))" by (simp add: comp_def)
  from r(2) have inj: "inj_on (\<lambda>e. callPoint (snd e)) (set vs)" by (simp add: distinct_map)
  {
    assume "c \<in> set (callersOf g k)" "c' \<in> set (callersOf g k')" "callPoint c = callPoint c'"
    with r(1) obtain e e' where "e \<in> set vs" "fst e = k" "snd e = c"
      "e' \<in> set vs" "fst e' = k'" "snd e' = c'" by auto
    with inj \<open>callPoint c = callPoint c'\<close> have "e = e'" by (auto dest: inj_onD)
    with \<open>fst e = k\<close> \<open>fst e' = k'\<close> show "k = k'" by simp
  }
  {
    assume "c \<in> set (callersOf g k)" "t \<in> set (todos g)"
    with r(1) have "c \<in> snd ` set vs" by auto
    with r(3) \<open>t \<in> set (todos g)\<close> show "\<not> inside (callPoint c) (requestRange t)" by blast
  }
qed

subsection \<open>Every insertion point has one owner\<close>

lemma distinct_concat_part:
  "distinct (concat (map f xs)) \<Longrightarrow> a \<in> set xs \<Longrightarrow> distinct (f a)"
  by (induction xs) auto

lemma distinct_concat_owner:
  "distinct (concat (map f xs)) \<Longrightarrow> a \<in> set xs \<Longrightarrow> b \<in> set xs \<Longrightarrow>
   x \<in> set (f a) \<Longrightarrow> x \<in> set (f b) \<Longrightarrow> a = b"
  by (induction xs) auto

lemma declPoints_declPts:
  "d \<in> set (graphDecls g) \<Longrightarrow> x \<in> set (declPoints d) \<Longrightarrow> x \<in> set (declPts g)"
  by (auto simp: declPts_def)

lemma importPoint_importPoints:
  "f \<in> set (files p) \<Longrightarrow> importPoint f = Some x \<Longrightarrow> x \<in> set (importPoints p)"
  by (force simp: importPoints_def)

lemma callersOf_recorded:
  "c \<in> set (callersOf g k) \<Longrightarrow> c \<in> set (transitives g @ concat (map snd (callers g)))"
  using callersOf_subset [of g k] by auto

lemma tokens_decl_call:
  assumes "wfTokens p g" and "x \<in> set (declPts g @ importPoints p)"
  shows "c \<in> set (transitives g) \<Longrightarrow> callPoint c \<noteq> x"
    and "c \<in> set (callersOf g k) \<Longrightarrow> callPoint c \<noteq> x"
    and "t \<in> set (todos g) \<Longrightarrow> \<not> inside x (requestRange t)"
proof -
  from assms have a: "\<forall>c \<in> set (transitives g @ concat (map snd (callers g))). callPoint c \<noteq> x"
    and b: "\<forall>t \<in> set (todos g). \<not> inside x (requestRange t)"
    unfolding wfTokens_def list_all_iff by blast+
  from a show "c \<in> set (transitives g) \<Longrightarrow> callPoint c \<noteq> x" by simp
  from a callersOf_recorded [of c g k] show "c \<in> set (callersOf g k) \<Longrightarrow> callPoint c \<noteq> x"
    by blast
  from b show "t \<in> set (todos g) \<Longrightarrow> \<not> inside x (requestRange t)" by blast
qed

lemma owner_unique:
  assumes w: "wfTokens p g" and r: "recorded S g"
    and d: "d \<in> set (graphDecls g)" "d' \<in> set (graphDecls g)"
    and x: "x \<in> set (ownPoints g d)" "x \<in> set (ownPoints g d')"
  shows "d = d'"
proof -
  from w have dist: "distinct (concat (map declPoints (remdups (graphDecls g))))"
    by (simp add: wfTokens_def declPts_def)
  from w d have fn: "fnId (declObj d) = fnId (declObj d') \<Longrightarrow> d = d'"
    unfolding wfTokens_def list_all_iff by (auto split: if_splits)
  from x(1) consider (own) "x \<in> set (declPoints d)"
    | (call) c where "c \<in> set (callersOf g (fnId (declObj d)))" "callPoint c = x"
    by (auto simp: ownPoints_def)
  then show ?thesis
  proof cases
    case own
    from x(2) consider (own') "x \<in> set (declPoints d')"
      | (call') c where "c \<in> set (callersOf g (fnId (declObj d')))" "callPoint c = x"
      by (auto simp: ownPoints_def)
    then show ?thesis
    proof cases
      case own'
      from distinct_concat_owner [OF dist _ _ own own'] d show ?thesis by simp
    next
      case call'
      from declPoints_declPts [OF d(1) own] have "x \<in> set (declPts g @ importPoints p)" by simp
      from tokens_decl_call(2) [OF w this call'(1)] call'(2) show ?thesis by simp
    qed
  next
    case call
    from x(2) consider (own') "x \<in> set (declPoints d')"
      | (call') c' where "c' \<in> set (callersOf g (fnId (declObj d')))" "callPoint c' = x"
      by (auto simp: ownPoints_def)
    then show ?thesis
    proof cases
      case own'
      from declPoints_declPts [OF d(2) own'] have "x \<in> set (declPts g @ importPoints p)" by simp
      from tokens_decl_call(2) [OF w this call(1)] call(2) show ?thesis by simp
    next
      case call'
      from recorded_callers(2) [OF r call(1) call'(1)] call(2) call'(2)
      have "fnId (declObj d) = fnId (declObj d')" by simp
      then show ?thesis by (rule fn)
    qed
  qed
qed

lemma owner_distinct:
  assumes w: "wfTokens p g" and r: "recorded S g" and d: "d \<in> set (graphDecls g)"
  shows "distinct (ownPoints g d)"
proof -
  from w have dist: "distinct (concat (map declPoints (remdups (graphDecls g))))"
    by (simp add: wfTokens_def declPts_def)
  from distinct_concat_part [OF dist, of d] d have 1: "distinct (declPoints d)" by simp
  have 2: "distinct (map callPoint (callersOf g (fnId (declObj d))))"
    by (rule recorded_callers(1) [OF r])
  have 3: "callPoint c \<notin> set (declPoints d)"
    if "c \<in> set (callersOf g (fnId (declObj d)))" for c
  proof
    assume "callPoint c \<in> set (declPoints d)"
    from declPoints_declPts [OF d this]
    have "callPoint c \<in> set (declPts g @ importPoints p)" by simp
    from tokens_decl_call(2) [OF w this that] show False by simp
  qed
  from 1 2 3 show ?thesis by (auto simp: ownPoints_def)
qed

lemma owner_not_import:
  assumes w: "wfTokens p g" and d: "d \<in> set (graphDecls g)" and x: "x \<in> set (ownPoints g d)"
    and f: "f \<in> set (files p)"
  shows "importPoint f \<noteq> Some x"
proof
  assume i: "importPoint f = Some x"
  from importPoint_importPoints [OF f i] have ip: "x \<in> set (importPoints p)" .
  from x consider (own) "x \<in> set (declPoints d)"
    | (call) c where "c \<in> set (callersOf g (fnId (declObj d)))" "callPoint c = x"
    by (auto simp: ownPoints_def)
  then show False
  proof cases
    case own
    from declPoints_declPts [OF d own] ip w show False by (auto simp: wfTokens_def)
  next
    case call
    from ip have "x \<in> set (declPts g @ importPoints p)" by simp
    from tokens_decl_call(2) [OF w this call(1)] call(2) show False by simp
  qed
qed

lemma file_unique:
  assumes w: "wfTokens p g" and f: "f \<in> set (files p)" "f' \<in> set (files p)"
    and x: "importPoint f = Some x" "importPoint f' = Some x"
  shows "f = f'"
proof -
  let ?pt = "\<lambda>f. case importPoint f of None \<Rightarrow> [] | Some x \<Rightarrow> [x]"
  from w have "distinct (concat (map ?pt (remdups (files p))))"
    by (simp add: wfTokens_def importPoints_def)
  from distinct_concat_owner [OF this, of f f' x] f x show ?thesis by simp
qed

lemma transitive_no_owner:
  assumes w: "wfTokens p g" and c: "c \<in> set (transitives g)"
  shows "d \<in> set (graphDecls g) \<Longrightarrow> callPoint c \<notin> set (ownPoints g d)"
    and "f \<in> set (files p) \<Longrightarrow> importPoint f \<noteq> Some (callPoint c)"
proof -
  {
    assume d: "d \<in> set (graphDecls g)"
    show "callPoint c \<notin> set (ownPoints g d)"
    proof
      assume "callPoint c \<in> set (ownPoints g d)"
      then consider (own) "callPoint c \<in> set (declPoints d)"
        | (call) c' where "c' \<in> set (callersOf g (fnId (declObj d)))"
            "callPoint c' = callPoint c"
        by (auto simp: ownPoints_def)
      then show False
      proof cases
        case own
        from declPoints_declPts [OF d own]
        have "callPoint c \<in> set (declPts g @ importPoints p)" by simp
        from tokens_decl_call(1) [OF w this c] show False by simp
      next
        case call
        from call(1) have "c' \<in> set (concat (map snd (callers g)))"
          using callersOf_subset [of g "fnId (declObj d)"] by auto
        with w c call(2) show False unfolding wfTokens_def list_all_iff by blast
      qed
    qed
  }
  {
    assume f: "f \<in> set (files p)"
    show "importPoint f \<noteq> Some (callPoint c)"
    proof
      assume "importPoint f = Some (callPoint c)"
      from importPoint_importPoints [OF f this]
      have "callPoint c \<in> set (declPts g @ importPoints p)" by simp
      from tokens_decl_call(1) [OF w this c] show False by simp
    qed
  }
qed

subsection \<open>Counting the insertions at a point\<close>

lemma newlyDecl_trans:
  assumes w: "wfTokens p g" and r: "recorded S g"
    and m: "paramAdded st \<subseteq> paramAdded st1" "paramAdded st1 \<subseteq> paramAdded st2"
  shows "(if newlyDecl g x st st1 then 1 else 0) + (if newlyDecl g x st1 st2 then 1 else (0::nat))
     \<le> (if newlyDecl g x st st2 then 1 else 0)"
proof -
  have a: "newlyDecl g x st st2" if "newlyDecl g x st st1"
    using that m unfolding newlyDecl_def by blast
  have b: "newlyDecl g x st st2" if "newlyDecl g x st1 st2"
    using that m unfolding newlyDecl_def by blast
  have c: False if "newlyDecl g x st st1" "newlyDecl g x st1 st2"
  proof -
    from that obtain d d' where d: "d \<in> set (graphDecls g)" "x \<in> set (ownPoints g d)"
      "declId d \<in> paramAdded st1"
      and d': "d' \<in> set (graphDecls g)" "x \<in> set (ownPoints g d')"
      "declId d' \<notin> paramAdded st1"
      unfolding newlyDecl_def by blast
    from owner_unique [OF w r d(1) d'(1) d(2) d'(2)] d(3) d'(3) show False by simp
  qed
  from a b c show ?thesis by auto
qed

lemma newlyFile_trans:
  assumes w: "wfTokens p g"
    and m: "contextImported st \<subseteq> contextImported st1" "contextImported st1 \<subseteq> contextImported st2"
  shows "(if newlyFile p x st st1 then 1 else 0) + (if newlyFile p x st1 st2 then 1 else (0::nat))
     \<le> (if newlyFile p x st st2 then 1 else 0)"
proof -
  have a: "newlyFile p x st st2" if "newlyFile p x st st1"
    using that m unfolding newlyFile_def by blast
  have b: "newlyFile p x st st2" if "newlyFile p x st1 st2"
    using that m unfolding newlyFile_def by blast
  have c: False if "newlyFile p x st st1" "newlyFile p x st1 st2"
  proof -
    from that obtain f f' where f: "f \<in> set (files p)" "importPoint f = Some x"
      "fileId f \<in> contextImported st1"
      and f': "f' \<in> set (files p)" "importPoint f' = Some x"
      "fileId f' \<notin> contextImported st1"
      unfolding newlyFile_def by blast
    from file_unique [OF w f(1) f'(1) f(2) f'(2)] f(3) f'(3) show False by simp
  qed
  from a b c show ?thesis by auto
qed

lemma budget_trans:
  assumes "wfTokens p g" and "recorded S g"
    and "paramAdded st \<subseteq> paramAdded st1" "paramAdded st1 \<subseteq> paramAdded st2"
    and "contextImported st \<subseteq> contextImported st1" "contextImported st1 \<subseteq> contextImported st2"
  shows "budget p g x st st1 + budget p g x st1 st2 \<le> budget p g x st st2"
  using newlyDecl_trans [OF assms(1-4), of x] newlyFile_trans [OF assms(1,5,6), of x]
  unfolding budget_def by linarith

lemma keepsPoint_refl: "keepsPoint p g x k st [] st"
  by (simp add: keepsPoint_def)

lemma keepsPoint_trans:
  assumes w: "wfTokens p g" and r: "recorded S g"
    and a: "keepsPoint p g x k1 st es1 st1" and b: "keepsPoint p g x k2 st1 es2 st2"
  shows "keepsPoint p g x (k1 + k2) st (es1 @ es2) st2"
proof -
  from a b have m: "paramAdded st \<subseteq> paramAdded st1" "paramAdded st1 \<subseteq> paramAdded st2"
    "contextImported st \<subseteq> contextImported st1" "contextImported st1 \<subseteq> contextImported st2"
    and c: "count_list (map tePos es1) x \<le> budget p g x st st1 + k1"
    "count_list (map tePos es2) x \<le> budget p g x st1 st2 + k2"
    by (simp_all add: keepsPoint_def)
  from budget_trans [OF w r m, of x] c
  have "count_list (map tePos (es1 @ es2)) x \<le> budget p g x st st2 + (k1 + k2)"
    by simp
  with m show ?thesis unfolding keepsPoint_def by blast
qed

lemma keepsPoint_weaken:
  "keepsPoint p g x k st es st' \<Longrightarrow> k \<le> k' \<Longrightarrow> keepsPoint p g x k' st es st'"
  by (auto simp: keepsPoint_def)

text \<open>Only \<open>paramAdded\<close> and \<open>contextImported\<close> matter.\<close>

lemma budget_cong:
  "paramAdded a = paramAdded a' \<Longrightarrow> contextImported a = contextImported a' \<Longrightarrow>
   paramAdded b = paramAdded b' \<Longrightarrow> contextImported b = contextImported b' \<Longrightarrow>
   budget p g x a b = budget p g x a' b'"
  by (simp add: budget_def newlyDecl_def newlyFile_def)

lemma keepsPoint_cong:
  "paramAdded a = paramAdded a' \<Longrightarrow> contextImported a = contextImported a' \<Longrightarrow>
   paramAdded b = paramAdded b' \<Longrightarrow> contextImported b = contextImported b' \<Longrightarrow>
   keepsPoint p g x k a es b = keepsPoint p g x k a' es b'"
  using budget_cong [of a a' b b' p g x] by (simp add: keepsPoint_def)

lemma keepsPoint_call:
  "keepsPoint p g x (if callPoint c = x then 1 else 0) st [editToPrependExpr (call c) v] st"
  by (simp add: keepsPoint_def editToPrependExpr_def callPoint_def)

lemma importEdit_point:
  assumes "editToImportContext p at st = (imp, st2)"
  shows "keepsPoint p g x 0 st imp st2"
proof (cases "find (\<lambda>f. fset p (filePos f) = fset p at) (files p)")
  case None
  with assms show ?thesis by (simp add: editToImportContext_def keepsPoint_def)
next
  case (Some f)
  then have f: "f \<in> set (files p)" by (auto simp: find_Some_iff)
  show ?thesis
  proof (cases "fileId f \<in> contextImported st")
    case True
    with assms Some show ?thesis by (simp add: editToImportContext_def keepsPoint_def)
  next
    case False
    let ?st' = "st\<lparr>contextImported := insert (fileId f) (contextImported st)\<rparr>"
    from assms Some False have st2: "st2 = ?st'"
      by (auto simp: editToImportContext_def Let_def split: option.splits list.splits if_splits)
    have c: "count_list (map tePos imp) x \<le> (if importPoint f = Some x then 1 else 0)"
      using assms Some False
      by (auto simp: editToImportContext_def Let_def importPoint_def
          split: option.splits list.splits if_splits)
    have "count_list (map tePos imp) x \<le> budget p g x st st2"
    proof (cases "importPoint f = Some x")
      case True
      with f False have "newlyFile p x st st2" unfolding newlyFile_def st2 by auto
      with c True show ?thesis by (simp add: budget_def)
    next
      case False
      with c show ?thesis by simp
    qed
    then show ?thesis by (simp add: keepsPoint_def st2 subset_insertI)
  qed
qed

lemma keepsPoint_decl:
  assumes d: "d \<in> set (graphDecls g)" and n: "declId d \<notin> paramAdded st"
    and e: "tePos e \<in> set (declPoints d)"
    and s: "paramAdded st' = insert (declId d) (paramAdded st)"
      "contextImported st' = contextImported st"
  shows "keepsPoint p g x 0 st [e] st'"
proof -
  have "count_list (map tePos [e]) x \<le> budget p g x st st'"
  proof (cases "tePos e = x")
    case True
    with d n e s have "newlyDecl g x st st'" unfolding newlyDecl_def ownPoints_def by auto
    with True show ?thesis by (simp add: budget_def)
  next
    case False
    then show ?thesis by simp
  qed
  with s show ?thesis by (auto simp: keepsPoint_def)
qed

lemma engine_induct_leaf:
  fixes PT :: "funcDecl option \<Rightarrow> nat set \<Rightarrow> diagState \<Rightarrow> textEdit list \<Rightarrow> nat set \<Rightarrow> diagState \<Rightarrow> bool"
    and PC :: "localCall list \<Rightarrow> nat set \<Rightarrow> diagState \<Rightarrow> textEdit list \<Rightarrow> nat set \<Rightarrow> diagState \<Rightarrow> bool"
  assumes tNone: "\<And>seen st. PT None seen st [] seen st"
    and tLeaf: "\<And>d seen st es seen' st' n.
        d \<in> set (graphDecls g) \<Longrightarrow> \<not> injects p d seen st \<Longrightarrow>
        propagateContextThrough (Suc n) p g (Some d) seen st = Some (es, seen', st') \<Longrightarrow>
        PT (Some d) seen st es seen' st'"
    and tInj: "\<And>d seen st es seen' st'.
        d \<in> set (graphDecls g) \<Longrightarrow> injects p d seen st \<Longrightarrow>
        PC (callersOf g (fnId (declObj d))) (insert (fnId (declObj d)) seen)
           (snd (injectState p d st)) es seen' st' \<Longrightarrow>
        PT (Some d) seen st (editToPrependCtxParam d # fst (injectState p d st) @ es) seen' st'"
    and fFound: "\<And>c seen st.
        c \<in> set (graphCalls g) \<Longrightarrow>
        snd (fst (hasContextProviderInPath (path c) (cPos (call c)))) \<Longrightarrow>
        PF c seen st
          [editToPrependExpr (call c) (fst (fst (hasContextProviderInPath (path c) (cPos (call c)))))]
          seen (reportAll p (snd (hasContextProviderInPath (path c) (cPos (call c)))) st)"
    and fThrough: "\<And>c seen st es seen' st'.
        c \<in> set (graphCalls g) \<Longrightarrow>
        \<not> snd (fst (hasContextProviderInPath (path c) (cPos (call c)))) \<Longrightarrow>
        PT (decl (path c)) seen
           (reportAll p (snd (hasContextProviderInPath (path c) (cPos (call c)))) st) es seen' st' \<Longrightarrow>
        PF c seen st (es @ [editToPrependExpr (call c) ''ctx'']) seen' st'"
    and cNil: "\<And>seen st. PC [] seen st [] seen st"
    and cCons: "\<And>c cs seen st es1 seen1 st1 es2 seen2 st2.
        c \<in> set (graphCalls g) \<Longrightarrow> set cs \<subseteq> set (graphCalls g) \<Longrightarrow>
        PF c seen st es1 seen1 st1 \<Longrightarrow> PC cs seen1 st1 es2 seen2 st2 \<Longrightarrow>
        PC (c # cs) seen st (es1 @ es2) seen2 st2"
  shows "propagateContextThrough fuel p g dopt seen st = Some (es, seen', st') \<Longrightarrow>
         (case dopt of None \<Rightarrow> True | Some d \<Rightarrow> d \<in> set (graphDecls g)) \<Longrightarrow>
         PT dopt seen st es seen' st'"
proof (induction fuel arbitrary: dopt seen st es seen' st')
  case 0
  then show ?case by (simp add: propagateContextThrough.simps)
next
  case (Suc n)
  have F: "PF c seen st es seen' st'"
    if "propagateContextForCall n p g c seen st = Some (es, seen', st')"
      and "c \<in> set (graphCalls g)" for c seen st es seen' st'
  proof (cases "snd (fst (hasContextProviderInPath (path c) (cPos (call c))))")
    case True
    with that(1) have "es = [editToPrependExpr (call c)
          (fst (fst (hasContextProviderInPath (path c) (cPos (call c)))))]"
      "seen' = seen" "st' = reportAll p (snd (hasContextProviderInPath (path c) (cPos (call c)))) st"
      by (simp_all add: propagateContextForCall.simps case_prod_beta)
    with fFound [OF that(2) True] show ?thesis by simp
  next
    case False
    with that(1) obtain es0 where
      t: "propagateContextThrough n p g (decl (path c)) seen
           (reportAll p (snd (hasContextProviderInPath (path c) (cPos (call c)))) st)
          = Some (es0, seen', st')"
      and es: "es = es0 @ [editToPrependExpr (call c) ''ctx'']"
      by (auto simp add: propagateContextForCall.simps case_prod_beta split: option.splits)
    have "case decl (path c) of None \<Rightarrow> True | Some d \<Rightarrow> d \<in> set (graphDecls g)"
      using graphDecls_member [OF that(2)] by (simp split: option.splits)
    from Suc.IH [OF t this] fThrough [OF that(2) False] es show ?thesis by simp
  qed
  have C: "PC cs seen st es seen' st'"
    if "propagateCallers n p g cs seen st = Some (es, seen', st')"
      and "set cs \<subseteq> set (graphCalls g)" for cs seen st es seen' st'
    using that
  proof (induction cs arbitrary: seen st es seen' st')
    case Nil
    then show ?case using cNil by (simp add: propagateCallers.simps)
  next
    case (Cons c cs)
    from Cons.prems(1) obtain es1 seen1 st1 es2 where
      f: "propagateContextForCall n p g c seen st = Some (es1, seen1, st1)"
      and r: "propagateCallers n p g cs seen1 st1 = Some (es2, seen', st')"
      and es: "es = es1 @ es2"
      by (auto simp add: propagateCallers.simps split: option.splits)
    from Cons.prems(2) have c: "c \<in> set (graphCalls g)" and cs: "set cs \<subseteq> set (graphCalls g)"
      by auto
    from cCons [OF c cs F [OF f c] Cons.IH [OF r cs]] es show ?case by simp
  qed
  show ?case
  proof (cases dopt)
    case None
    with Suc.prems(1) tNone show ?thesis by (simp add: through_None)
  next
    case (Some d)
    with Suc.prems(2) have d: "d \<in> set (graphDecls g)" by simp
    show ?thesis
    proof (cases "injects p d seen st")
      case False
      from tLeaf [OF d False] Suc.prems(1) Some show ?thesis by simp
    next
      case True
      from Suc.prems(1) Some obtain es0 where
        r: "propagateCallers n p g (callersOf g (fnId (declObj d)))
              (insert (fnId (declObj d)) seen) (snd (injectState p d st)) = Some (es0, seen', st')"
        and es: "es = editToPrependCtxParam d # fst (injectState p d st) @ es0"
        by (auto simp add: through_inject [OF True] split: option.splits)
      from tInj [OF d True C [OF r callersOf_graphCalls]] es Some show ?thesis by simp
    qed
  qed
qed

lemma distinct_count_list: "distinct xs \<Longrightarrow> count_list xs x \<le> 1"
  by (induction xs) (auto simp: count_list_0)

lemma count_list_pos: "count_list xs x \<noteq> 0 \<Longrightarrow> x \<in> set xs"
  by (rule ccontr) (simp add: count_list_0)

text \<open>The branches of \<^verbatim>\<open>propagateContextThrough\<close> that do not add a parameter.\<close>

lemma through_leaf_point:
  assumes w: "wfTokens p g" and r: "recorded S g" and d: "d \<in> set (graphDecls g)"
    and ni: "\<not> injects p d seen st"
    and t: "propagateContextThrough (Suc n) p g (Some d) seen st = Some (es, seen', st')"
  shows "keepsPoint p g x 0 st es st'"
proof (cases "fnId (declObj d) \<in> seen \<or> declId d \<in> paramAdded st")
  case True
  with t have "es = []" "st' = st"
    by (auto simp add: propagateContextThrough.simps split: if_splits)
  then show ?thesis by (simp add: keepsPoint_refl)
next
  case False
  let ?st1 = "st\<lparr>paramAdded := insert (declId d) (paramAdded st)\<rparr>"
  from False have fresh: "declId d \<notin> paramAdded st" by simp
  show ?thesis
  proof (cases "find (\<lambda>q. vName q = ''ctx'') (fnParams (declObj d))")
    case (Some q)
    with t False have "es = []" "paramAdded st' = insert (declId d) (paramAdded st)"
      "contextImported st' = contextImported st"
      by (auto simp add: propagateContextThrough.simps Let_def split: if_splits)
    then show ?thesis by (auto simp: keepsPoint_def)
  next
    case None
    let ?r = "hasContextProviderParam (declObj d)"
    show ?thesis
    proof (cases "isMainOrInit (declObj d) \<or> isTopLevelTestFunc p d")
      case True
      let ?e = "editToAddContextVarDecl d ''context.Background()''"
      let ?imp = "editToImportContext p (declNamePos d) ?st1"
      from t False None True have es: "es = ?e # fst ?imp" and st': "st' = snd ?imp"
        by (simp_all add: propagateContextThrough.simps Let_def case_prod_beta)
      have a: "keepsPoint p g x 0 st [?e] ?st1"
        by (rule keepsPoint_decl [OF d fresh])
           (simp_all add: editToAddContextVarDecl_def declPoints_def)
      have b: "keepsPoint p g x 0 ?st1 (fst ?imp) (snd ?imp)"
        by (rule importEdit_point) simp
      from keepsPoint_trans [OF w r a b] show ?thesis by (simp add: es st')
    next
      case notEntry: False
      with ni False None have ok: "snd (fst ?r)" by (simp add: injects_def)
      let ?e = "editToAddContextVarDecl d (fst (fst ?r))"
      let ?st2 = "reportAll p (snd ?r) ?st1"
      let ?imp = "editToImportContext p (declNamePos d) ?st2"
      from t False None notEntry ok have es: "es = ?e # fst ?imp" and st': "st' = snd ?imp"
        by (simp_all add: propagateContextThrough.simps Let_def case_prod_beta)
      have a: "keepsPoint p g x 0 st [?e] ?st2"
        by (rule keepsPoint_decl [OF d fresh])
           (simp_all add: editToAddContextVarDecl_def declPoints_def)
      have b: "keepsPoint p g x 0 ?st2 (fst ?imp) (snd ?imp)"
        by (rule importEdit_point) simp
      from keepsPoint_trans [OF w r a b] show ?thesis by (simp add: es st')
    qed
  qed
qed

lemma inject_point:
  assumes w: "wfTokens p g" and r: "recorded S g" and dm: "d \<in> set (graphDecls g)"
    and inj: "injects p d seen st"
    and k: "keepsPoint p g x (count_list (map callPoint (callersOf g (fnId (declObj d)))) x)
              (snd (injectState p d st)) es st'"
  shows "keepsPoint p g x 0 st (editToPrependCtxParam d # fst (injectState p d st) @ es) st'"
proof -
  let ?cs = "callersOf g (fnId (declObj d))"
  let ?K = "count_list (map callPoint ?cs) x"
  let ?st2 = "reportAll p (snd (hasContextProviderParam (declObj d)))
                (st\<lparr>paramAdded := insert (declId d) (paramAdded st)\<rparr>)"
  let ?st3 = "if fnExported (declObj d) then ?st2\<lparr>facts := facts ?st2 @ [fnId (declObj d)]\<rparr>
              else ?st2"
  let ?imp = "fst (injectState p d st)"
  let ?st4 = "snd (injectState p d st)"
  let ?e = "editToPrependCtxParam d"
  have i: "injectState p d st = editToImportContext p (declNamePos d) ?st3"
    by (simp add: injectState_def Let_def)
  from inj have fresh: "declId d \<notin> paramAdded st" by (simp add: injects_def)
  have s3: "paramAdded ?st3 = insert (declId d) (paramAdded st)"
    "contextImported ?st3 = contextImported st" by simp_all
  have a: "keepsPoint p g x 0 st [?e] ?st3"
    by (rule keepsPoint_decl [OF dm fresh _ s3])
       (simp add: editToPrependCtxParam_def declPoints_def)
  have b: "keepsPoint p g x 0 ?st3 ?imp ?st4"
    by (rule importEdit_point) (simp add: i)
  from keepsPoint_trans [OF w r a b] have ab: "keepsPoint p g x 0 st (?e # ?imp) ?st4" by simp
  show ?thesis
  proof (cases "?K = 0")
    case True
    from keepsPoint_trans [OF w r ab k] True show ?thesis by simp
  next
    case False
    then have xc: "x \<in> set (map callPoint ?cs)" by (rule count_list_pos)
    then have own: "x \<in> set (ownPoints g d)" by (simp add: ownPoints_def)
    from owner_distinct [OF w r dm] have dist: "distinct (declPoints d @ map callPoint ?cs)"
      by (simp add: ownPoints_def)
    then have K1: "?K \<le> 1" by (intro distinct_count_list) simp
    from dist xc have nd: "x \<notin> set (declPoints d)" by auto
    then have e0: "tePos ?e \<noteq> x" by (auto simp: editToPrependCtxParam_def declPoints_def)
    have nf: "\<not> newlyFile p x a b" for a b
      using owner_not_import [OF w dm own] unfolding newlyFile_def by blast
    from b ab k have m: "paramAdded ?st3 \<subseteq> paramAdded ?st4"
      "paramAdded st \<subseteq> paramAdded ?st4" "contextImported st \<subseteq> contextImported ?st4"
      "paramAdded ?st4 \<subseteq> paramAdded st'" "contextImported ?st4 \<subseteq> contextImported st'"
      by (simp_all add: keepsPoint_def)
    have pa4: "paramAdded ?st4 = insert (declId d) (paramAdded st)"
      by (rule injectState_props)
    have "\<not> newlyDecl g x ?st3 ?st4" by (auto simp add: newlyDecl_def pa4)
    with nf b have i0: "count_list (map tePos ?imp) x = 0"
      by (simp add: keepsPoint_def budget_def)
    have "\<not> newlyDecl g x ?st4 st'"
    proof
      assume "newlyDecl g x ?st4 st'"
      then obtain d' where d': "d' \<in> set (graphDecls g)" "x \<in> set (ownPoints g d')"
        "declId d' \<notin> paramAdded ?st4" unfolding newlyDecl_def by blast
      from owner_unique [OF w r dm d'(1) own d'(2)] d'(3) pa4 show False by simp
    qed
    with nf k K1 have e1: "count_list (map tePos es) x \<le> 1"
      by (simp add: keepsPoint_def budget_def)
    from dm own fresh m(4) pa4 have "newlyDecl g x st st'"
      unfolding newlyDecl_def by blast
    then have "1 \<le> budget p g x st st'" by (simp add: budget_def)
    with e0 i0 e1 have "count_list (map tePos (?e # ?imp @ es)) x \<le> budget p g x st st' + 0"
      by simp
    with m show ?thesis unfolding keepsPoint_def by blast
  qed
qed

lemma reportAll_keepsPoint:
  "keepsPoint p g x k (reportAll p ds st) es st' = keepsPoint p g x k st es st'"
  by (rule keepsPoint_cong) simp_all

lemma through_point:
  assumes w: "wfTokens p g" and r: "recorded S g"
    and "propagateContextThrough fuel p g dopt seen st = Some (es, seen', st')"
    and "case dopt of None \<Rightarrow> True | Some d \<Rightarrow> d \<in> set (graphDecls g)"
  shows "keepsPoint p g x 0 st es st'"
proof (rule engine_induct_leaf
    [where PT = "\<lambda>dopt seen st es seen' st'. keepsPoint p g x 0 st es st'"
       and PF = "\<lambda>c seen st es seen' st'.
                   keepsPoint p g x (if callPoint c = x then 1 else 0) st es st'"
       and PC = "\<lambda>cs seen st es seen' st'.
                   keepsPoint p g x (count_list (map callPoint cs) x) st es st'",
     OF _ _ _ _ _ _ _ assms(3,4)])
  show "keepsPoint p g x 0 st [] st" for st by (rule keepsPoint_refl)
next
  fix d seen st es seen' st' n
  assume "d \<in> set (graphDecls g)" "\<not> injects p d seen st"
    "propagateContextThrough (Suc n) p g (Some d) seen st = Some (es, seen', st')"
  then show "keepsPoint p g x 0 st es st'" by (rule through_leaf_point [OF w r])
next
  fix d seen st es st'
  assume "d \<in> set (graphDecls g)" "injects p d seen st"
    "keepsPoint p g x (count_list (map callPoint (callersOf g (fnId (declObj d)))) x)
       (snd (injectState p d st)) es st'"
  then show "keepsPoint p g x 0 st
      (editToPrependCtxParam d # fst (injectState p d st) @ es) st'"
    by (rule inject_point [OF w r])
next
  fix c :: localCall and st
  let ?r = "hasContextProviderInPath (path c) (cPos (call c))"
  have "keepsPoint p g x (if callPoint c = x then 1 else 0) st
      [editToPrependExpr (call c) (fst (fst ?r))] st" by (rule keepsPoint_call)
  then show "keepsPoint p g x (if callPoint c = x then 1 else 0) st
      [editToPrependExpr (call c) (fst (fst ?r))] (reportAll p (snd ?r) st)"
    by (simp add: keepsPoint_cong [of st st "reportAll p (snd ?r) st" st])
next
  fix c :: localCall and st es st'
  let ?r = "hasContextProviderInPath (path c) (cPos (call c))"
  assume "keepsPoint p g x 0 (reportAll p (snd ?r) st) es st'"
  then have a: "keepsPoint p g x 0 st es st'" by (simp add: reportAll_keepsPoint)
  have b: "keepsPoint p g x (if callPoint c = x then 1 else 0) st'
      [editToPrependExpr (call c) ''ctx''] st'" by (rule keepsPoint_call)
  from keepsPoint_trans [OF w r a b]
  show "keepsPoint p g x (if callPoint c = x then 1 else 0) st
      (es @ [editToPrependExpr (call c) ''ctx'']) st'" by simp
next
  show "keepsPoint p g x (count_list (map callPoint []) x) st [] st" for st
    by (simp add: keepsPoint_refl)
next
  fix c :: localCall and cs st es1 st1 es2 st2
  assume "keepsPoint p g x (if callPoint c = x then 1 else 0) st es1 st1"
    "keepsPoint p g x (count_list (map callPoint cs) x) st1 es2 st2"
  from keepsPoint_trans [OF w r this]
  show "keepsPoint p g x (count_list (map callPoint (c # cs)) x) st (es1 @ es2) st2"
    by (cases "callPoint c = x") simp_all
qed

subsection \<open>The edits of one diagnostic\<close>

lemma requestEdit_range: "editRange (requestEdit todo expr) = requestRange todo"
  by (simp add: editRange_def requestEdit_def requestRange_def split: option.splits)

lemma report_keepsPoint:
  "keepsPoint p g x k st es (report p d st') = keepsPoint p g x k st es st'"
  by (rule keepsPoint_cong) simp_all

lemma rewriteTODO_edits:
  assumes w: "wfTokens p g" and r: "recorded S g" and c: "todo \<in> set (todos g)"
    and rw: "rewriteTODO fuel p g todo st = Some st'"
  shows "\<exists>es e. list_all (\<lambda>e. tePos e = teEnd e) es \<and> (\<forall>x. keepsPoint p g x 0 st es st') \<and>
     editRange e = requestRange todo \<and>
     (allEdits (reports st') = allEdits (reports st) \<or>
      allEdits (reports st') = allEdits (reports st) @ es @ [e])"
  using rw
proof (cases rule: rewriteTODO_cases)
  case (found expr ds)
  let ?e = "\<lparr>tePos = cPos (call todo), teEnd = cEnd (call todo), teNewText = expr\<rparr>"
  from found(1) have e: "editRange ?e = requestRange todo"
    by (simp add: editRange_def requestRange_def)
  have k: "\<forall>x. keepsPoint p g x 0 st [] st'"
    unfolding found(3) by (simp add: keepsPoint_def)
  from report_plumbDiag_edits [of p "''Plumb context''" "call todo" "[?e]"
      "st\<lparr>reports := reports st @ ds\<rparr>"] found(2,3)
  have "allEdits (reports st') = allEdits (reports st) \<or>
      allEdits (reports st') = allEdits (reports st) @ [] @ [?e]"
    by (auto simp add: allEdits_no_fixes)
  with k e show ?thesis by (intro exI [of _ "[]"] exI [of _ ?e]) simp
next
  case (through es seen st1)
  let ?st0 = "st\<lparr>reports := reports st @ requestDiags todo\<rparr>"
  let ?e = "requestEdit todo ''ctx''"
  note dm = decl_graphDecls [OF todos_graphCalls [OF c]]
  from through_keeps [OF through(1) dm]
  obtain ds where "list_all (\<lambda>x. dFixes x = []) ds" "reports st1 = reports ?st0 @ ds"
    and z: "list_all (\<lambda>e. tePos e = teEnd e) es"
    by (auto simp: engineKeeps_def)
  then have e1: "allEdits (reports st1) = allEdits (reports st)"
    by (simp add: allEdits_no_fixes requestDiags_no_fixes)
  have k: "\<forall>x. keepsPoint p g x 0 st es st'"
  proof
    fix x
    from through_point [OF w r through(1) dm, of x]
    have "keepsPoint p g x 0 ?st0 es st1" .
    then have "keepsPoint p g x 0 st es st1"
      by (simp add: keepsPoint_cong [of ?st0 st st1 st1])
    then show "keepsPoint p g x 0 st es st'"
      unfolding through(2) by (simp add: report_keepsPoint)
  qed
  from report_plumbDiag_edits [of p "''Plumb context''" "call todo" "es @ [?e]" st1]
    through(2) e1
  have "allEdits (reports st') = allEdits (reports st) \<or>
      allEdits (reports st') = allEdits (reports st) @ es @ [?e]" by auto
  with z k show ?thesis
    by (intro exI [of _ es] exI [of _ ?e]) (simp add: requestEdit_range)
qed

lemma rewriteTransitives_edits:
  assumes w: "wfTokens p g" and r: "recorded S g" and c: "todo \<in> set (transitives g)"
    and rw: "rewriteTransitives fuel p g todo st = Some st'"
  shows "\<exists>es. list_all (\<lambda>e. tePos e = teEnd e) es \<and>
     (\<forall>x. keepsPoint p g x (if callPoint todo = x then 1 else 0) st es st') \<and>
     (allEdits (reports st') = allEdits (reports st) \<or>
      allEdits (reports st') = allEdits (reports st) @ es)"
proof -
  let ?r = "hasContextProviderInPath (path todo) (cPos (call todo))"
  let ?st0 = "reportAll p (snd ?r) st"
  note cm = transitives_graphCalls [OF c]
  from reportAll_path_reports [of p "path todo" "cPos (call todo)" st]
  have e0: "allEdits (reports ?st0) = allEdits (reports st)"
    by (auto simp add: allEdits_no_fixes)
  from rw obtain es seen st1 where
    f: "propagateContextForCall fuel p g todo {} st = Some (es, seen, st1)"
    and st': "st' = report p (plumbDiag ''Continue plumbing context'' (call todo) es) st1"
    by (auto simp: rewriteTransitives_def split: option.splits)
  have "list_all (\<lambda>e. tePos e = teEnd e) es \<and>
      allEdits (reports st1) = allEdits (reports ?st0) \<and>
      (\<forall>x. keepsPoint p g x (if callPoint todo = x then 1 else 0) st es st1)"
  proof (cases "snd (fst ?r)")
    case True
    with f have es: "es = [editToPrependExpr (call todo) (fst (fst ?r))]" and s: "st1 = ?st0"
      by (simp_all add: propagateContextForCall.simps case_prod_beta)
    have "keepsPoint p g x (if callPoint todo = x then 1 else 0) st es st1" for x
      using keepsPoint_call [of p g x todo st "fst (fst ?r)"]
      unfolding es s by (simp add: keepsPoint_cong [of st st ?st0 st])
    with es s show ?thesis by (simp add: editToPrependExpr_def)
  next
    case False
    with f obtain es0 where
      t: "propagateContextThrough fuel p g (decl (path todo)) {} ?st0 = Some (es0, seen, st1)"
      and es: "es = es0 @ [editToPrependExpr (call todo) ''ctx'']"
      by (auto simp add: propagateContextForCall.simps case_prod_beta split: option.splits)
    have "keepsPoint p g x (if callPoint todo = x then 1 else 0) st es st1" for x
    proof -
      from through_point [OF w r t decl_graphDecls [OF cm], of x]
      have a: "keepsPoint p g x 0 st es0 st1" by (simp add: reportAll_keepsPoint)
      have b: "keepsPoint p g x (if callPoint todo = x then 1 else 0) st1
          [editToPrependExpr (call todo) ''ctx''] st1" by (rule keepsPoint_call)
      from keepsPoint_trans [OF w r a b] show ?thesis by (simp add: es)
    qed
    with through_keeps [OF t decl_graphDecls [OF cm]] es
    show ?thesis
      by (auto simp: engineKeeps_def allEdits_no_fixes editToPrependExpr_def)
  qed
  with report_plumbDiag_edits [of p "''Continue plumbing context''" "call todo" es st1]
    st' e0
  show ?thesis
    by (intro exI [of _ es]) (auto simp add: report_keepsPoint)
qed

subsection \<open>The edits of the whole pass\<close>

lemma passKeeps_refl: "passKeeps p g x 0 st st"
  by (simp add: passKeeps_def)

lemma passKeeps_trans:
  assumes w: "wfTokens p g" and r: "recorded S g"
    and a: "passKeeps p g x k1 st st1" and b: "passKeeps p g x k2 st1 st2"
  shows "passKeeps p g x (k1 + k2) st st2"
proof -
  from a b have m: "paramAdded st \<subseteq> paramAdded st1" "paramAdded st1 \<subseteq> paramAdded st2"
    "contextImported st \<subseteq> contextImported st1" "contextImported st1 \<subseteq> contextImported st2"
    and c: "count_list (insertions st1) x \<le> count_list (insertions st) x + budget p g x st st1 + k1"
    "count_list (insertions st2) x \<le> count_list (insertions st1) x + budget p g x st1 st2 + k2"
    by (simp_all add: passKeeps_def)
  from budget_trans [OF w r m, of x] c
  have "count_list (insertions st2) x
      \<le> count_list (insertions st) x + budget p g x st st2 + (k1 + k2)"
    by simp
  with m show ?thesis unfolding passKeeps_def by blast
qed

lemma filter_insertions:
  "list_all (\<lambda>e. tePos e = teEnd e) es \<Longrightarrow> filter (\<lambda>e. tePos e = teEnd e) es = es"
  by (induction es) simp_all

lemma filter_wide_insertions:
  "list_all (\<lambda>e. tePos e = teEnd e) es \<Longrightarrow>
   filter (\<lambda>r. fst r < snd r) (map editRange es) = []"
  by (induction es) (simp_all add: editRange_def)

lemma keepsPoint_passKeeps:
  assumes z: "list_all (\<lambda>e. tePos e = teEnd e) es"
    and k: "keepsPoint p g x k st es st'"
    and e: "allEdits (reports st') = allEdits (reports st) \<or>
            allEdits (reports st') = allEdits (reports st) @ es @ ws"
    and ws: "list_all (\<lambda>e. tePos e < teEnd e) ws"
  shows "passKeeps p g x k st st'"
proof -
  from ws have f: "filter (\<lambda>e. tePos e = teEnd e) ws = []"
    by (induction ws) simp_all
  from e f filter_insertions [OF z]
  have "insertions st' = insertions st \<or> insertions st' = insertions st @ map tePos es"
    by (auto simp: insertions_def)
  with k show ?thesis by (auto simp: passKeeps_def keepsPoint_def)
qed

lemma todo_wide:
  assumes "recorded S g" and "todo \<in> set (todos g)" and "editRange e = requestRange todo"
  shows "tePos e < teEnd e"
  using recorded_todos(2) [OF assms(1,2)] assms(3) [symmetric] by (simp add: editRange_def)

lemma todosLoop_count:
  assumes w: "wfTokens p g" and r: "recorded S g"
  shows "set cs \<subseteq> set (todos g) \<Longrightarrow> todosLoop fuel p g cs st = Some st' \<Longrightarrow>
     passKeeps p g x 0 st st'"
proof (induction cs arbitrary: st)
  case Nil
  then show ?case by (simp add: passKeeps_refl)
next
  case (Cons c cs)
  from Cons.prems(2) obtain st1 where
    rw: "rewriteTODO fuel p g c st = Some st1" and l: "todosLoop fuel p g cs st1 = Some st'"
    by (auto split: option.splits)
  from Cons.prems(1) have c: "c \<in> set (todos g)" and cs: "set cs \<subseteq> set (todos g)" by auto
  from rewriteTODO_edits [OF w r c rw] obtain es e where
    z: "list_all (\<lambda>e. tePos e = teEnd e) es" and k: "keepsPoint p g x 0 st es st1"
    and e: "editRange e = requestRange c"
    and a: "allEdits (reports st1) = allEdits (reports st) \<or>
            allEdits (reports st1) = allEdits (reports st) @ es @ [e]"
    by blast
  from todo_wide [OF r c e] have "list_all (\<lambda>e. tePos e < teEnd e) [e]" by simp
  from keepsPoint_passKeeps [OF z k a this] have "passKeeps p g x 0 st st1" .
  from passKeeps_trans [OF w r this Cons.IH [OF cs l]] show ?case by simp
qed

lemma transitivesLoop_count:
  assumes w: "wfTokens p g" and r: "recorded S g"
  shows "set cs \<subseteq> set (transitives g) \<Longrightarrow> transitivesLoop fuel p g cs st = Some st' \<Longrightarrow>
     passKeeps p g x (count_list (map callPoint cs) x) st st'"
proof (induction cs arbitrary: st)
  case Nil
  then show ?case by (simp add: passKeeps_refl)
next
  case (Cons c cs)
  from Cons.prems(2) obtain st1 where
    rw: "rewriteTransitives fuel p g c st = Some st1"
    and l: "transitivesLoop fuel p g cs st1 = Some st'"
    by (auto split: option.splits)
  from Cons.prems(1) have c: "c \<in> set (transitives g)" and cs: "set cs \<subseteq> set (transitives g)"
    by auto
  from rewriteTransitives_edits [OF w r c rw] obtain es where
    z: "list_all (\<lambda>e. tePos e = teEnd e) es"
    and k: "keepsPoint p g x (if callPoint c = x then 1 else 0) st es st1"
    and a: "allEdits (reports st1) = allEdits (reports st) \<or>
            allEdits (reports st1) = allEdits (reports st) @ es @ []"
    by auto
  from keepsPoint_passKeeps [OF z k a]
  have "passKeeps p g x (if callPoint c = x then 1 else 0) st st1" by simp
  from passKeeps_trans [OF w r this Cons.IH [OF cs l]] show ?case
    by (cases "callPoint c = x") simp_all
qed

text \<open>The edits that are not insertions.\<close>

lemma pairwiseDisjoint_remove:
  "pairwiseDisjoint (xs @ y # ys) \<Longrightarrow> pairwiseDisjoint (xs @ ys)"
  by (auto simp: pairwiseDisjoint_append list_all_iff)

lemma todosLoop_wide:
  assumes w: "wfTokens p g" and r: "recorded S g"
  shows "set cs \<subseteq> set (todos g) \<Longrightarrow> todosLoop fuel p g cs st = Some st' \<Longrightarrow>
     pairwiseDisjoint (wideRanges st @ map requestRange cs) \<Longrightarrow>
     list_all (\<lambda>e. tePos e \<le> teEnd e) (allEdits (reports st)) \<Longrightarrow>
     pairwiseDisjoint (wideRanges st') \<and>
     set (wideRanges st') \<subseteq> set (wideRanges st) \<union> requestRange ` set cs \<and>
     list_all (\<lambda>e. tePos e \<le> teEnd e) (allEdits (reports st'))"
proof (induction cs arbitrary: st)
  case Nil
  then show ?case by simp
next
  case (Cons c cs)
  from Cons.prems(2) obtain st1 where
    rw: "rewriteTODO fuel p g c st = Some st1" and l: "todosLoop fuel p g cs st1 = Some st'"
    by (auto split: option.splits)
  from Cons.prems(1) have c: "c \<in> set (todos g)" and cs: "set cs \<subseteq> set (todos g)" by auto
  from rewriteTODO_edits [OF w r c rw] obtain es e where
    z: "list_all (\<lambda>e. tePos e = teEnd e) es"
    and e: "editRange e = requestRange c"
    and a: "allEdits (reports st1) = allEdits (reports st) \<or>
            allEdits (reports st1) = allEdits (reports st) @ es @ [e]"
    by blast
  from todo_wide [OF r c e] have wd: "tePos e < teEnd e" .
  then have we: "fst (editRange e) < snd (editRange e)" by (simp add: editRange_def)
  from a we e filter_wide_insertions [OF z]
  have ws: "wideRanges st1 = wideRanges st \<or> wideRanges st1 = wideRanges st @ [requestRange c]"
    by (auto simp: wideRanges_def)
  from z have "list_all (\<lambda>e. tePos e \<le> teEnd e) es" by (auto simp: list_all_iff)
  with a wd Cons.prems(4) have le: "list_all (\<lambda>e. tePos e \<le> teEnd e) (allEdits (reports st1))"
    by auto
  from ws Cons.prems(3) have "pairwiseDisjoint (wideRanges st1 @ map requestRange cs)"
    by (auto dest: pairwiseDisjoint_remove)
  from Cons.IH [OF cs l this le] ws show ?case by auto
qed

lemma transitivesLoop_wide:
  assumes w: "wfTokens p g" and r: "recorded S g"
  shows "set cs \<subseteq> set (transitives g) \<Longrightarrow> transitivesLoop fuel p g cs st = Some st' \<Longrightarrow>
     list_all (\<lambda>e. tePos e \<le> teEnd e) (allEdits (reports st)) \<Longrightarrow>
     wideRanges st' = wideRanges st \<and>
     list_all (\<lambda>e. tePos e \<le> teEnd e) (allEdits (reports st'))"
proof (induction cs arbitrary: st)
  case Nil
  then show ?case by simp
next
  case (Cons c cs)
  from Cons.prems(2) obtain st1 where
    rw: "rewriteTransitives fuel p g c st = Some st1"
    and l: "transitivesLoop fuel p g cs st1 = Some st'"
    by (auto split: option.splits)
  from Cons.prems(1) have c: "c \<in> set (transitives g)" and cs: "set cs \<subseteq> set (transitives g)"
    by auto
  from rewriteTransitives_edits [OF w r c rw] obtain es where
    z: "list_all (\<lambda>e. tePos e = teEnd e) es"
    and a: "allEdits (reports st1) = allEdits (reports st) \<or>
            allEdits (reports st1) = allEdits (reports st) @ es"
    by auto
  from a filter_wide_insertions [OF z]
  have ws: "wideRanges st1 = wideRanges st" by (auto simp: wideRanges_def)
  from z have "list_all (\<lambda>e. tePos e \<le> teEnd e) es" by (auto simp: list_all_iff)
  with a Cons.prems(3) have le: "list_all (\<lambda>e. tePos e \<le> teEnd e) (allEdits (reports st1))"
    by auto
  from Cons.IH [OF cs l le] ws show ?case by simp
qed

lemma final_count:
  assumes w: "wfTokens p g" and r: "recorded S g"
    and k: "passKeeps p g x (count_list (map callPoint (transitives g)) x) initialState st'"
  shows "count_list (insertions st') x \<le> 1"
    and "count_list (insertions st') x \<noteq> 0 \<Longrightarrow> t \<in> set (todos g) \<Longrightarrow>
         \<not> inside x (requestRange t)"
proof -
  let ?T = "count_list (map callPoint (transitives g)) x"
  have i: "insertions initialState = []" by (simp add: insertions_def initialState_def)
  from k i have c: "count_list (insertions st') x \<le> budget p g x initialState st' + ?T"
    by (simp add: passKeeps_def)
  have both: "\<not> (newlyDecl g x a b \<and> newlyFile p x a b)" for a b
    using owner_not_import [OF w] unfolding newlyDecl_def newlyFile_def by blast
  have tr: "\<not> newlyDecl g x a b \<and> \<not> newlyFile p x a b \<and>
      (\<forall>t \<in> set (todos g). \<not> inside x (requestRange t))" if "?T \<noteq> 0" for a b
  proof -
    from count_list_pos [OF that] obtain c where c: "c \<in> set (transitives g)" "callPoint c = x"
      by auto
    from transitive_no_owner [OF w c(1)] recorded_transitives(2) [OF r c(1)] c(2)
    show ?thesis unfolding newlyDecl_def newlyFile_def by blast
  qed
  have T1: "?T \<le> 1" by (rule distinct_count_list [OF recorded_transitives(1) [OF r]])
  show "count_list (insertions st') x \<le> 1"
  proof (cases "?T = 0")
    case True
    with c both [of initialState st'] show ?thesis by (auto simp: budget_def split: if_splits)
  next
    case False
    from tr [OF False, of initialState st'] c T1 show ?thesis by (simp add: budget_def)
  qed
  {
    assume n: "count_list (insertions st') x \<noteq> 0" and t: "t \<in> set (todos g)"
    show "\<not> inside x (requestRange t)"
    proof (cases "?T = 0")
      case False
      from tr [OF False, of initialState st'] t show ?thesis by blast
    next
      case True
      with n c have "newlyDecl g x initialState st' \<or> newlyFile p x initialState st'"
        by (auto simp: budget_def split: if_splits)
      then show ?thesis
      proof
        assume "newlyDecl g x initialState st'"
        then obtain d where d: "d \<in> set (graphDecls g)" "x \<in> set (ownPoints g d)"
          unfolding newlyDecl_def by blast
        from d(2) consider (own) "x \<in> set (declPoints d)"
          | (call) c where "c \<in> set (callersOf g (fnId (declObj d)))" "callPoint c = x"
          by (auto simp: ownPoints_def)
        then show ?thesis
        proof cases
          case own
          from declPoints_declPts [OF d(1) own]
          have "x \<in> set (declPts g @ importPoints p)" by simp
          from tokens_decl_call(3) [OF w this t] show ?thesis .
        next
          case call
          from recorded_callers(3) [OF r call(1) t] call(2) show ?thesis by simp
        qed
      next
        assume "newlyFile p x initialState st'"
        then obtain f where "f \<in> set (files p)" "importPoint f = Some x"
          unfolding newlyFile_def by blast
        from importPoint_importPoints [OF this]
        have "x \<in> set (declPts g @ importPoints p)" by simp
        from tokens_decl_call(3) [OF w this t] show ?thesis .
      qed
    qed
  }
qed

lemma count_distinct: "(\<And>x. count_list xs x \<le> 1) \<Longrightarrow> distinct xs"
proof (induction xs)
  case Nil
  show ?case by simp
next
  case (Cons a xs)
  from Cons.prems [of a] have "count_list xs a = 0" by simp
  then have a: "a \<notin> set xs" by (simp add: count_list_0_iff)
  have "count_list xs x \<le> 1" for x using Cons.prems [of x] by (simp split: if_splits)
  from Cons.IH [OF this] a show ?case by simp
qed

lemma edits_disjoint:
  "list_all (\<lambda>e. tePos e \<le> teEnd e) E \<Longrightarrow>
   pairwiseDisjoint (filter (\<lambda>r. fst r < snd r) (map editRange E)) \<Longrightarrow>
   distinct (map tePos (filter (\<lambda>e. tePos e = teEnd e) E)) \<Longrightarrow>
   (\<forall>e \<in> set E. \<forall>e' \<in> set E.
      tePos e < teEnd e \<and> tePos e' = teEnd e' \<longrightarrow> \<not> inside (tePos e') (editRange e)) \<Longrightarrow>
   pairwiseDisjoint (map editRange E)"
proof (induction E)
  case Nil
  show ?case by simp
next
  case (Cons e E)
  from Cons.prems(1) have le: "tePos e \<le> teEnd e" "list_all (\<lambda>e. tePos e \<le> teEnd e) E"
    by simp_all
  from Cons.prems(2) have wd: "pairwiseDisjoint (filter (\<lambda>r. fst r < snd r) (map editRange E))"
    by (simp split: if_splits)
  from Cons.prems(3) have ins: "distinct (map tePos (filter (\<lambda>e. tePos e = teEnd e) E))"
    by (simp split: if_splits)
  from Cons.prems(4) have cross: "\<forall>e \<in> set E. \<forall>e' \<in> set E.
      tePos e < teEnd e \<and> tePos e' = teEnd e' \<longrightarrow> \<not> inside (tePos e') (editRange e)"
    by simp
  have "\<not> overlap (editRange e) (editRange e')" if m: "e' \<in> set E" for e'
  proof -
    from le m have le': "tePos e' \<le> teEnd e'" by (auto simp: list_all_iff)
    show ?thesis
    proof (cases "tePos e < teEnd e")
      case True
      show ?thesis
      proof (cases "tePos e' < teEnd e'")
        case wide: True
        with m have "editRange e' \<in> set (filter (\<lambda>r. fst r < snd r) (map editRange E))"
          by (simp add: editRange_def)
        with Cons.prems(2) True show ?thesis
          by (simp add: editRange_def list_all_iff)
      next
        case False
        with le' have "tePos e' = teEnd e'" by simp
        with Cons.prems(4) True m have "\<not> inside (tePos e') (editRange e)" by simp
        with True \<open>tePos e' = teEnd e'\<close> show ?thesis
          by (auto simp: overlap_def inside_def editRange_def)
      qed
    next
      case False
      with le have eq: "tePos e = teEnd e" by simp
      show ?thesis
      proof (cases "tePos e' < teEnd e'")
        case True
        with Cons.prems(4) eq m have "\<not> inside (tePos e) (editRange e')" by simp
        with True eq show ?thesis
          by (auto simp: overlap_def inside_def editRange_def)
      next
        case False
        with le' have eq': "tePos e' = teEnd e'" by simp
        with m have "tePos e' \<in> set (map tePos (filter (\<lambda>e. tePos e = teEnd e) E))" by simp
        with Cons.prems(3) eq have "tePos e \<noteq> tePos e'" by auto
        with eq eq' show ?thesis by (auto simp: overlap_def editRange_def)
      qed
    qed
  qed
  with Cons.IH [OF le(2) wd ins cross] show ?case by (simp add: list_all_iff)
qed

subsection \<open>Every request that is not filtered is rewritten\<close>

lemma report_plumbDiag_kept:
  "\<not> hasPrefix (fset p (cPos c)) (moduleCache p) \<Longrightarrow>
   allEdits (reports (report p (plumbDiag m c es) st)) = allEdits (reports st) @ es"
  using filterDrops_not_prefix [of "fset p" "plumbDiag m c es" "moduleCache p"]
  by (simp add: report_def filterReports_def plumbDiag_def allEdits_def)

lemma rewriteTODO_kept:
  assumes k: "\<not> hasPrefix (fset p (cPos (call todo))) (moduleCache p)"
    and rw: "rewriteTODO fuel p g todo st = Some st'"
  shows "requestRange todo \<in> editRange ` set (allEdits (reports st'))"
  using rw
proof (cases rule: rewriteTODO_cases)
  case (found expr ds)
  let ?e = "\<lparr>tePos = cPos (call todo), teEnd = cEnd (call todo), teNewText = expr\<rparr>"
  from found(1) have "editRange ?e = requestRange todo"
    by (simp add: editRange_def requestRange_def)
  moreover from report_plumbDiag_kept [OF k] found(3)
  have "?e \<in> set (allEdits (reports st'))" by simp
  ultimately show ?thesis by (metis imageI)
next
  case (through es seen st1)
  from report_plumbDiag_kept [OF k] through(2)
  have "requestEdit todo ''ctx'' \<in> set (allEdits (reports st'))" by simp
  with requestEdit_range [of todo "''ctx''"] show ?thesis by (metis imageI)
qed

lemma todosLoop_kept:
  assumes w: "wfTokens p g" and r: "recorded S g"
  shows "set cs \<subseteq> set (todos g) \<Longrightarrow> todosLoop fuel p g cs st = Some st' \<Longrightarrow>
     set (allEdits (reports st)) \<subseteq> set (allEdits (reports st')) \<and>
     (\<forall>t \<in> set cs. \<not> hasPrefix (fset p (cPos (call t))) (moduleCache p) \<longrightarrow>
        requestRange t \<in> editRange ` set (allEdits (reports st')))"
proof (induction cs arbitrary: st)
  case Nil
  then show ?case by simp
next
  case (Cons c cs)
  from Cons.prems(2) obtain st1 where
    rw: "rewriteTODO fuel p g c st = Some st1" and l: "todosLoop fuel p g cs st1 = Some st'"
    by (auto split: option.splits)
  from Cons.prems(1) have c: "c \<in> set (todos g)" and cs: "set cs \<subseteq> set (todos g)" by auto
  from rewriteTODO_edits [OF w r c rw]
  have m: "set (allEdits (reports st)) \<subseteq> set (allEdits (reports st1))" by auto
  from Cons.IH [OF cs l] have ih:
    "set (allEdits (reports st1)) \<subseteq> set (allEdits (reports st'))"
    "\<forall>t \<in> set cs. \<not> hasPrefix (fset p (cPos (call t))) (moduleCache p) \<longrightarrow>
        requestRange t \<in> editRange ` set (allEdits (reports st'))" by simp_all
  have "requestRange c \<in> editRange ` set (allEdits (reports st'))"
    if "\<not> hasPrefix (fset p (cPos (call c))) (moduleCache p)"
    using rewriteTODO_kept [OF that rw] ih(1) by auto
  with m ih show ?case by auto
qed

lemma transitivesLoop_kept:
  assumes w: "wfTokens p g" and r: "recorded S g"
  shows "set cs \<subseteq> set (transitives g) \<Longrightarrow> transitivesLoop fuel p g cs st = Some st' \<Longrightarrow>
     set (allEdits (reports st)) \<subseteq> set (allEdits (reports st'))"
proof (induction cs arbitrary: st)
  case Nil
  then show ?case by simp
next
  case (Cons c cs)
  from Cons.prems(2) obtain st1 where
    rw: "rewriteTransitives fuel p g c st = Some st1"
    and l: "transitivesLoop fuel p g cs st1 = Some st'"
    by (auto split: option.splits)
  from Cons.prems(1) have c: "c \<in> set (transitives g)" and cs: "set cs \<subseteq> set (transitives g)"
    by auto
  from rewriteTransitives_edits [OF w r c rw]
  have "set (allEdits (reports st)) \<subseteq> set (allEdits (reports st1))" by auto
  with Cons.IH [OF cs l] show ?case by auto
qed

lemma pass_edits_disjoint:
  assumes w: "wfTokens p g" and r: "recorded S g"
    and t: "todosLoop fuel p g (todos g) initialState = Some st1"
    and u: "transitivesLoop fuel p g (transitives g) st1 = Some st'"
  shows "pairwiseDisjoint (map editRange (allEdits (reports st')))"
proof -
  let ?E = "allEdits (reports st')"
  have i: "wideRanges initialState = []" "allEdits (reports initialState) = []"
    by (simp_all add: wideRanges_def initialState_def)
  from todosLoop_wide [OF w r _ t] recorded_todos(1) [OF r] i
  have w1: "pairwiseDisjoint (wideRanges st1)"
    "set (wideRanges st1) \<subseteq> requestRange ` set (todos g)"
    "list_all (\<lambda>e. tePos e \<le> teEnd e) (allEdits (reports st1))" by simp_all
  from transitivesLoop_wide [OF w r _ u w1(3)]
  have w2: "wideRanges st' = wideRanges st1" "list_all (\<lambda>e. tePos e \<le> teEnd e) ?E"
    by simp_all
  have k: "passKeeps p g x (count_list (map callPoint (transitives g)) x) initialState st'"
    for x
    using passKeeps_trans [OF w r todosLoop_count [OF w r _ t] transitivesLoop_count [OF w r _ u]]
    by simp
  have "count_list (insertions st') x \<le> 1" for x by (rule final_count(1) [OF w r k])
  then have "distinct (insertions st')" by (rule count_distinct)
  then have d: "distinct (map tePos (filter (\<lambda>e. tePos e = teEnd e) ?E))"
    by (simp add: insertions_def)
  have wd: "pairwiseDisjoint (filter (\<lambda>r. fst r < snd r) (map editRange ?E))"
    using w1(1) w2(1) by (simp add: wideRanges_def)
  have cross: "\<not> inside (tePos e') (editRange e)"
    if "e \<in> set ?E" "e' \<in> set ?E" "tePos e < teEnd e" "tePos e' = teEnd e'" for e e'
  proof -
    from that(1,3) have "editRange e \<in> set (wideRanges st')"
      by (simp add: wideRanges_def editRange_def)
    with w1(2) w2(1) obtain t where t: "t \<in> set (todos g)" "editRange e = requestRange t"
      by auto
    from that(2,4) have "tePos e' \<in> set (insertions st')" by (simp add: insertions_def)
    then have "count_list (insertions st') (tePos e') \<noteq> 0" by (simp add: count_list_0_iff)
    from final_count(2) [OF w r k this t(1)] t(2) show ?thesis by simp
  qed
  from edits_disjoint [OF w2(2) wd d] cross show ?thesis by blast
qed

text \<open>
  C8: for files that parse (\<open>wfAst\<close>) and tokens as the parser and the type checker
  give them (\<open>wfTokens\<close>), a pass with a bound of \<open>walkBound\<close> or more returns, and no
  two of the edits of the diagnostics it reports overlap: no two replaced or deleted
  ranges share a position, no insertion point lies strictly inside a replaced or
  deleted range, and no two insertions are made at the same point. The edits that are
  not insertions replace or delete one recorded request each, and the walk records no
  request inside another; at every insertion point the engine inserts at most once in
  the whole pass, whatever the number of requests and calls that lead to it. And the
  edit set is not trivially empty: the range of every recorded request whose file is
  not under the module cache is among the ranges of the edits.
\<close>

theorem edits_of_a_pass_are_disjoint:
  assumes "wfAst roots" and "wfTokens p (buildCallGraph p roots)"
    and "walkBound (buildCallGraph p roots) \<le> fuel" and "moduleCache p \<noteq> []"
  shows "\<exists>st'. run fuel p roots = Inr (Some st') \<and>
     pairwiseDisjoint (map editRange (allEdits (reports st'))) \<and>
     (\<forall>t \<in> set (todos (buildCallGraph p roots)).
        \<not> hasPrefix (fset p (cPos (call t))) (moduleCache p) \<longrightarrow>
        requestRange t \<in> set (map editRange (allEdits (reports st'))))"
proof -
  let ?g = "buildCallGraph p roots"
  note w = assms(2)
  from buildCallGraph_recorded [OF assms(1), of p] obtain S where r: "recorded S ?g" by blast
  from buildDiagnostics_terminates [OF assms(3), of p initialState] obtain st' where
    b: "buildDiagnostics fuel p ?g initialState = Some st'" by blast
  then obtain st1 where t: "todosLoop fuel p ?g (todos ?g) initialState = Some st1"
    and u: "transitivesLoop fuel p ?g (transitives ?g) st1 = Some st'"
    by (auto simp: buildDiagnostics_def split: option.splits)
  have d: "pairwiseDisjoint (map editRange (allEdits (reports st')))"
    by (rule pass_edits_disjoint [OF w r t u])
  from transitivesLoop_kept [OF w r _ u]
  have m: "editRange ` set (allEdits (reports st1)) \<subseteq> editRange ` set (allEdits (reports st'))"
    by (intro image_mono) simp
  from todosLoop_kept [OF w r _ t]
  have "\<forall>t \<in> set (todos ?g).
        \<not> hasPrefix (fset p (cPos (call t))) (moduleCache p) \<longrightarrow>
        requestRange t \<in> editRange ` set (allEdits (reports st1))"
    by simp
  with m have "\<forall>t \<in> set (todos ?g).
        \<not> hasPrefix (fset p (cPos (call t))) (moduleCache p) \<longrightarrow>
        requestRange t \<in> set (map editRange (allEdits (reports st')))"
    by auto
  with b d assms(4) show ?thesis by (simp add: run_def)
qed

theorem edits_of_a_pass_are_disjoint_witness:
  "(\<exists>st'. run 4 plainPass [cycleFile] = Inr (Some st') \<and>
      pairwiseDisjoint (map editRange (allEdits (reports st'))) \<and>
      (\<forall>t \<in> set (todos (buildCallGraph plainPass [cycleFile])).
         \<not> hasPrefix (fset plainPass (cPos (call t))) (moduleCache plainPass) \<longrightarrow>
         requestRange t \<in> set (map editRange (allEdits (reports st'))))) \<and>
   (case run 4 plainPass [cycleFile] of
      Inr (Some st') \<Rightarrow> map editRange (allEdits (reports st')) | other \<Rightarrow> []) =
     [(22, 22), (3, 3), (102, 102), (67, 67), (117, 117), (42, 56)] \<and>
   map requestRange (todos (buildCallGraph plainPass [cycleFile])) = [(42, 56)] \<and>
   \<not> hasPrefix (fset plainPass 42) (moduleCache plainPass)"
proof -
  have wf: "wfAst [cycleFile]" by code_simp
  have wt: "wfTokens plainPass (buildCallGraph plainPass [cycleFile])" by code_simp
  have wb: "walkBound (buildCallGraph plainPass [cycleFile]) \<le> 4" by code_simp
  have mc: "moduleCache plainPass \<noteq> []" by code_simp
  have ev: "(case run 4 plainPass [cycleFile] of
      Inr (Some st') \<Rightarrow> map editRange (allEdits (reports st')) | other \<Rightarrow> []) =
     [(22, 22), (3, 3), (102, 102), (67, 67), (117, 117), (42, 56)]" by code_simp
  have rq: "map requestRange (todos (buildCallGraph plainPass [cycleFile])) = [(42, 56)]"
    by code_simp
  have np: "\<not> hasPrefix (fset plainPass 42) (moduleCache plainPass)" by code_simp
  from edits_of_a_pass_are_disjoint [OF wf wt wb mc] ev rq np show ?thesis by (intro conjI)
qed

end
